theory Spec2Isabelle
  imports Complex_Main "HOL-Library.Log_Nat" "HOL-Library.Word"
begin

section \<open>Numbers\<close>

text \<open>
  Every number of the program is an IEEE 754 double.  A finite double is a rational, so
  the values are modelled as \<open>rat\<close>, and the result of an arithmetic operation of the
  program is the exact result rounded to the nearest double, ties to even: \<open>a * b\<close> in
  the code is \<open>fl (a * b)\<close> here, and likewise for \<open>/\<close> and \<open>+\<close>.

  \<open>binade x\<close> is the exponent \<open>e\<close> with \<open>2\<^sup>e \<le> \<bar>x\<bar> < 2\<^sup>e\<^sup>+\<^sup>1\<close>, and \<open>fl x\<close> rounds \<open>x\<close>
  to 53 significant bits.  The exponent is not bounded: overflow to \<open>Infinity\<close>,
  subnormal numbers and \<open>NaN\<close> are not modelled (a quotient by zero is \<open>Infinity\<close> in
  the code and 0 here), so the scale is meant to be a positive double of ordinary size.

  The quantities of a capture request that count page pixels (region, viewport and page
  sizes, scroll offsets, tile origins) are whole numbers and modelled as \<open>int\<close>.  Sums,
  differences and products of whole numbers are exact in doubles as long as they stay
  below \<open>2\<^sup>5\<^sup>3\<close>, and they are written as exact operations on \<open>int\<close>; an operation
  that involves the device scale factor \<open>scl\<close> (a fraction such as 1.5 on many displays)
  or a quotient is rounded.  \<open>Math.trunc\<close> rounds towards zero.
\<close>

definition binade :: "rat \<Rightarrow> int" where
  "binade x =
     (let e = bitlen (fst (quotient_of \<bar>x\<bar>)) - bitlen (snd (quotient_of \<bar>x\<bar>))
      in if 2 powi e \<le> \<bar>x\<bar> then e else e - 1)"

definition round_half_even :: "rat \<Rightarrow> int" where
  "round_half_even y =
     (let f = \<lfloor>y\<rfloor>; r = y - of_int f
      in if r < 1 / 2 then f else if 1 / 2 < r then f + 1 else if even f then f else f + 1)"

definition fl :: "rat \<Rightarrow> rat" where
  "fl x = (if x = 0 then 0
           else of_int (round_half_even (x / 2 powi (binade x - 52))) * 2 powi (binade x - 52))"

definition Math_trunc :: "rat \<Rightarrow> int" where
  "Math_trunc q = (if 0 \<le> q then \<lfloor>q\<rfloor> else \<lceil>q\<rceil>)"

definition MAX_SAFE_INTEGER :: int where
  "MAX_SAFE_INTEGER = 2 ^ 53 - 1"

section \<open>Tile planner (\<open>TakeScreenshot\<close>, background.js 114--118, 358--372, 380--385)\<close>

text \<open>
  \<open>const limits = [32767 / scl, 472907776 / (scl * scl)].map(Math.trunc)\<close>:
  the first component bounds a canvas edge, the second a canvas area.  The product
  \<open>scl * scl\<close> and both quotients are rounded before \<open>Math.trunc\<close> is applied.
\<close>

definition limits :: "rat \<Rightarrow> int \<times> int" where
  "limits scl =
     (Math_trunc (fl (32767 / scl)), Math_trunc (fl (472907776 / fl (scl * scl))))"

text \<open>\<open>const one_canvas = Math.max(rw, rh) <= limits[0] && rw * rh <= limits[1]\<close>\<close>

definition one_canvas :: "int \<Rightarrow> int \<Rightarrow> rat \<Rightarrow> bool" where
  "one_canvas rw rh scl = (max rw rh \<le> fst (limits scl) \<and> rw * rh \<le> snd (limits scl))"

text \<open>
  The per-tile maxima \<open>[mw, mh]\<close> (lines 358--372).  The first branch under
  \<open>use_native\<close> is guarded by \<open>false && ...\<close> in the source and can never be taken;
  the guard is kept as written.
\<close>

definition tile_max :: "bool \<Rightarrow> int \<Rightarrow> int \<Rightarrow> int \<Rightarrow> int \<Rightarrow> rat \<Rightarrow> int \<times> int" where
  "tile_max use_native rw rh vw vh scl =
     (if use_native then
        (if False then (min rw (fst (limits scl)), min rh (fst (limits scl)))
         else (min (min rw (fst (limits scl))) 4095, min (min rh (fst (limits scl))) 16383))
      else (min (min vw (fst (limits scl))) 4095, min (min vh (fst (limits scl))) 16383))"

record tile =
  tx :: int
  ty :: int
  tw :: int
  th :: int

text \<open>
  The two nested \<open>for\<close> loops of lines 382--385.  Each loop adds its step to the counter
  until the counter reaches the region size, so with a step \<open>mw \<le> 0\<close> or \<open>mh \<le> 0\<close>
  it never ends: the loops are partial functions, \<open>None\<close> standing for a run that does
  not return.  Tiles are appended in the order the loop body meets them.
\<close>

partial_function (option) row_loop ::
  "int \<Rightarrow> int \<Rightarrow> int \<Rightarrow> int \<Rightarrow> int \<Rightarrow> tile list \<Rightarrow> tile list option" where
  "row_loop rw mw y h x acc =
     (if x < rw then
        row_loop rw mw y h (x + mw)
          (acc @ [\<lparr>tx = x, ty = y, tw = (if x + mw \<le> rw then mw else rw - x), th = h\<rparr>])
      else Some acc)"

partial_function (option) col_loop ::
  "int \<Rightarrow> int \<Rightarrow> int \<Rightarrow> int \<Rightarrow> int \<Rightarrow> tile list \<Rightarrow> tile list option" where
  "col_loop rw rh mw mh y acc =
     (if y < rh then
        Option.bind (row_loop rw mw y (if y + mh \<le> rh then mh else rh - y) 0 acc)
          (\<lambda>acc'. col_loop rw rh mw mh (y + mh) acc')
      else Some acc)"

declare row_loop.simps [code] col_loop.simps [code]

definition plan_tiles :: "int \<Rightarrow> int \<Rightarrow> int \<Rightarrow> int \<Rightarrow> tile list option" where
  "plan_tiles rw rh mw mh = col_loop rw rh mw mh 0 []"

text \<open>The pixels of the region that a tile covers, in region-local coordinates.\<close>

definition tile_cells :: "tile \<Rightarrow> (int \<times> int) set" where
  "tile_cells t = {tx t ..< tx t + tw t} \<times> {ty t ..< ty t + th t}"


definition covers :: "tile \<Rightarrow> int \<Rightarrow> int \<Rightarrow> bool" where
  "covers t p q = (tx t \<le> p \<and> p < tx t + tw t \<and> ty t \<le> q \<and> q < ty t + th t)"

section \<open>Mutual exclusion\<close>

text \<open>
  \<open>TakeScreenshot\<close> locks the key \<open>'browserAction-' + tab.id\<close> for the capture and the
  key \<open>'worker'\<close> for the encoder.  The two kinds of key are kept apart by a datatype.
\<close>

datatype lock_key = BrowserActionKey int | WorkerKey

record lock_entry =
  holder :: nat
  expiry :: int

type_synonym lock_table = "lock_key \<Rightarrow> lock_entry option"

text \<open>
  Modelled from the spec: the class \<open>Mutex\<close> is used by background.js but defined
  elsewhere.  A lock entry has a key, a holder token and an expiry timestamp; a key is
  held at time \<open>now\<close> when it has an entry whose lease has not expired, and an expired
  lease counts as released.
\<close>

definition holder_of :: "lock_table \<Rightarrow> lock_key \<Rightarrow> int \<Rightarrow> nat option" where
  "holder_of tbl k now =
     (case tbl k of None \<Rightarrow> None
      | Some e \<Rightarrow> if now < expiry e then Some (holder e) else None)"

text \<open>
  Modelled from the spec: \<open>acquire(key, {blocking: false, leaseDurationMs})\<close>, the call
  \<open>mutex.lock(key, {retry: false, lock_time})\<close> of the source.  It returns at once:
  true if the lock was free and is now held by the caller, false if it is already held.
\<close>

definition acquire :: "nat \<Rightarrow> lock_key \<Rightarrow> int \<Rightarrow> int \<Rightarrow> lock_table \<Rightarrow> bool \<times> lock_table" where
  "acquire who k lease now tbl =
     (case holder_of tbl k now of
        Some other \<Rightarrow> (False, tbl)
      | None \<Rightarrow> (True, tbl(k \<mapsto> \<lparr>holder = who, expiry = now + lease\<rparr>)))"

text \<open>
  Modelled from the spec: \<open>acquire\<close> with \<open>blocking\<close> true, the call
  \<open>mutex.lock(key, {lock_time})\<close> of the source.  It waits until the lock is free or
  the lease of the current holder expires, then takes the lock; the result is the time
  at which the lock was taken and the new table.  No other task runs in this model, so
  a held lock becomes free when its lease expires.
\<close>

definition acquire_blocking :: "nat \<Rightarrow> lock_key \<Rightarrow> int \<Rightarrow> int \<Rightarrow> lock_table \<Rightarrow> int \<times> lock_table" where
  "acquire_blocking who k lease now tbl =
     (let t = (case tbl k of None \<Rightarrow> now | Some e \<Rightarrow> max now (expiry e))
      in (t, tbl(k \<mapsto> \<lparr>holder = who, expiry = t + lease\<rparr>)))"

text \<open>
  Modelled from the spec: \<open>release(key)\<close>, the call \<open>mutex.unlock(key)\<close> of the source,
  clears ownership unconditionally; releasing an unheld key changes nothing.
\<close>

definition release :: "lock_key \<Rightarrow> lock_table \<Rightarrow> lock_table" where
  "release k tbl = tbl(k := None)"

section \<open>Requests, environment and observable effects\<close>

datatype image_format = Png | Jpg | Copy

datatype region_kind = Full | Viewport | Selection

text \<open>
  The fields of \<open>req\<close> that \<open>TakeScreenshot\<close> reads (lines 114--116, 125, 342, 386--387).
\<close>

record request =
  req_vw :: int
  req_vh :: int
  req_pw :: int
  req_ph :: int
  req_width :: int
  req_height :: int
  req_left :: int
  req_top :: int
  req_sx :: int
  req_sy :: int
  req_spx :: int
  req_spy :: int
  req_dir_x :: int
  req_dir_y :: int
  req_scale :: rat
  req_format :: image_format
  req_region :: region_kind

datatype save_method = Open | SaveAs | Silent

text \<open>A byte of pixel data and the four bytes of a pixel.\<close>

type_synonym byte = "8 word"

type_synonym rgba = "byte \<times> byte \<times> byte \<times> byte"

text \<open>
  What the run of one request depends on besides the request: the browser, the
  preferences, whether \<open>new Uint8Array(size)\<close> succeeds, what \<open>drawImage\<close> paints on
  the canvas of a tile from the decoded capture (the colour of the pixel in a given column
  and row, for a tile and its \<open>pos\<close>), whether the encoder worker and the download
  succeed, and the clock at the three non-blocking lock calls.
\<close>

record env =
  BROWSER_VERSION_MAJOR :: int
  badge :: bool
  drawWindow :: bool
  style_translate :: bool
  alloc_ok :: "int \<Rightarrow> bool"
  painted :: "tile \<Rightarrow> int \<times> int \<Rightarrow> int \<Rightarrow> int \<Rightarrow> rgba"
  savemethod :: save_method
  image_comment :: bool
  copynotification :: bool
  savenotification :: bool
  worker_ok :: bool
  download_ok :: bool
  t_lock :: int
  t_worker :: int
  t_finally :: int

datatype css = CssReset | CssTranslate int int | CssTransform int int

datatype script = ScrollTo int int | ReadRootStyle

datatype badge_title = BadgeCapturing | BadgeSaving | NoTitle

datatype badge_text = Count int | Dots | NoText

datatype badge_color = Red | Green | NoColor

datatype message =
    ErrorImageTooLarge | WarningImageVeryLarge | WarningWorkerBusy
  | InfoScreenshotCopied | InfoScreenshotSaved

text \<open>
  Every call of \<open>TakeScreenshot\<close> that is visible outside it, in the order of the calls.
\<close>

datatype event =
    Disable | Enable
  | SetTitle badge_title | SetBadgeText badge_text | SetBadgeBackgroundColor badge_color
  | Alarm message | Notify message | ConsoleError
  | CreateCanvas int int | NewUint8Array int
  | InsertCSS css | RemoveCSS css | ExecuteScript script
  | CaptureTabRect int int int int rat | DrawWindow int int int int
  | CaptureTab | CaptureVisibleTab
  | DrawImage tile "int \<times> int" | BufferCopy tile "int \<times> int"
  | CanvasToBytes | WorkerEncode | WorkerTerminate
  | ClipboardSetImageData | ApplyImageComment | TriggerOpen
  | CreateObjectURL | RevokeObjectURL | AddDownloadListener | RemoveDownloadListener
  | Download bool

fun is_capture :: "event \<Rightarrow> bool" where
  "is_capture (CaptureTabRect x y w h s) = True"
| "is_capture (DrawWindow x y w h) = True"
| "is_capture CaptureTab = True"
| "is_capture CaptureVisibleTab = True"
| "is_capture ev = False"

fun is_page_mutation :: "event \<Rightarrow> bool" where
  "is_page_mutation (InsertCSS c) = True"
| "is_page_mutation (RemoveCSS c) = True"
| "is_page_mutation (ExecuteScript c) = True"
| "is_page_mutation ev = False"

fun is_allocation :: "event \<Rightarrow> bool" where
  "is_allocation (CreateCanvas w h) = True"
| "is_allocation (NewUint8Array n) = True"
| "is_allocation ev = False"


fun is_delivery :: "event \<Rightarrow> bool" where
  "is_delivery (Download b) = True"
| "is_delivery CreateObjectURL = True"
| "is_delivery TriggerOpen = True"
| "is_delivery ClipboardSetImageData = True"
| "is_delivery ev = False"

section \<open>Composite buffer (lines 130--152)\<close>

datatype content = Canvas2D int int | Uint8Array int

datatype error = ImageTooLargeError | RangeError | IndexSizeError

text \<open>
  The drawable surface when \<open>one_canvas\<close> holds, the raw byte buffer otherwise.  The
  \<open>try\<close> block throws when the byte count is not below \<open>Number.MAX_SAFE_INTEGER\<close>
  and when the allocation itself throws; both end in the \<open>catch\<close> of line 147.  The
  second component lists the calls made.  \<open>totalWidth\<close> and \<open>totalHeight\<close> are
  \<open>Math.trunc(x * scl)\<close> of the rounded product (line 130).  The byte count is a product
  of whole numbers; rounding it would not change the comparison with
  \<open>Number.MAX_SAFE_INTEGER\<close>, since a count below that bound is exact and rounding is
  monotone, and a count that is allocated is below it.
\<close>

definition prepare_content :: "(int \<Rightarrow> bool) \<Rightarrow> int \<Rightarrow> int \<Rightarrow> rat \<Rightarrow> (error + content) \<times> event list" where
  "prepare_content can_alloc rw rh scl =
     (let totalWidth = Math_trunc (fl (of_int rw * scl));
          totalHeight = Math_trunc (fl (of_int rh * scl))
      in if one_canvas rw rh scl then
           (Inr (Canvas2D totalWidth totalHeight), [CreateCanvas totalWidth totalHeight])
         else
           (let size = totalWidth * totalHeight * 4
            in if size < MAX_SAFE_INTEGER then
                 (if can_alloc size then
                    (Inr (Uint8Array size), [NewUint8Array size, Notify WarningImageVeryLarge])
                  else (Inl ImageTooLargeError, [NewUint8Array size, Alarm ErrorImageTooLarge]))
               else (Inl ImageTooLargeError, [Alarm ErrorImageTooLarge])))"

section \<open>Scroll compensator (lines 165--356)\<close>

text \<open>
  The variable \<open>restoreScrollPosition\<close> is rebound by the code: it starts as a function
  that does nothing (line 102), one of three restoring functions is stored in it
  (lines 188, 308, 345), and each of these stores the do-nothing function back as its
  first statement.  \<open>restore_fn\<close> names the function the variable holds.
\<close>

datatype restore_fn = RestoreNoop | RestoreCss | RestoreJs | RestoreNative

text \<open>
  The mutable variables the closures share: the variable \<open>restoreScrollPosition\<close>, the
  list \<open>tasks\<close> of pending \<open>removeCSS\<close> calls (each named by the style sheet it
  removes), the flag \<open>is_first\<close>, and the calls made so far.
\<close>

record scroll_state =
  restore_slot :: restore_fn
  tasks :: "css list"
  is_first :: bool
  effects :: "event list"

definition emit :: "event list \<Rightarrow> scroll_state \<Rightarrow> scroll_state" where
  "emit evs st = st\<lparr>effects := effects st @ evs\<rparr>"

text \<open>\<open>resetScrollPosition\<close> (lines 175--184): insert \<open>css_reset\<close>, then scroll to the origin.\<close>

definition resetScrollPosition :: "scroll_state \<Rightarrow> scroll_state" where
  "resetScrollPosition st = emit [InsertCSS CssReset, ExecuteScript (ScrollTo 0 0)] st"

text \<open>
  A call \<open>restoreScrollPosition()\<close>: the function the variable holds is run.  The three
  restoring functions are those of lines 188--196, 308--314 and 345--353;
  \<open>js_scroll_restore\<close> is \<open>window.scrollTo(sx + spx, sy + spy)\<close> (line 165).
\<close>

definition restoreScrollPosition :: "request \<Rightarrow> scroll_state \<Rightarrow> scroll_state" where
  "restoreScrollPosition req st =
     (let js_scroll_restore = ExecuteScript (ScrollTo (req_sx req + req_spx req) (req_sy req + req_spy req))
      in case restore_slot st of
           RestoreNoop \<Rightarrow> st
         | RestoreCss \<Rightarrow>
             emit (map RemoveCSS (tasks st) @ [js_scroll_restore]) (st\<lparr>restore_slot := RestoreNoop\<rparr>)
         | RestoreJs \<Rightarrow>
             emit [js_scroll_restore] (st\<lparr>restore_slot := RestoreNoop\<rparr>)
         | RestoreNative \<Rightarrow>
             emit [RemoveCSS CssReset, js_scroll_restore] (st\<lparr>restore_slot := RestoreNoop\<rparr>))"

text \<open>
  \<open>applyCssScroll\<close> (lines 217--236 when the root style has a \<open>translate\<close> property,
  lines 262--280 otherwise): insert a style sheet that moves the page by \<open>(x, y)\<close> on top
  of the snapshot of the root style, and push its removal on \<open>tasks\<close>.
\<close>

definition applyCssScroll :: "bool \<Rightarrow> int \<Rightarrow> int \<Rightarrow> scroll_state \<Rightarrow> scroll_state" where
  "applyCssScroll has_translate x y st =
     (let css = (if has_translate then CssTranslate x y else CssTransform x y)
      in (emit [InsertCSS css] st)\<lparr>tasks := tasks st @ [css]\<rparr>)"

text \<open>The target coordinates \<open>_sx\<close>, \<open>_sy\<close> of the CSS strategy (lines 285--286).\<close>

definition css_scroll_target :: "request \<Rightarrow> int \<Rightarrow> int \<Rightarrow> int \<Rightarrow> int \<Rightarrow> int \<times> int" where
  "css_scroll_target req x y w h =
     (if req_dir_x req > 0 then x else - (req_pw req - x) + w,
      if req_dir_y req > 0 then y else - (req_ph req - y) + h)"

text \<open>The target coordinates \<open>_sx\<close>, \<open>_sy\<close> of the scripted-scroll strategy (lines 318--319).\<close>

definition js_scroll_target :: "request \<Rightarrow> int \<Rightarrow> int \<Rightarrow> int \<Rightarrow> int \<Rightarrow> int \<times> int" where
  "js_scroll_target req x y w h =
     (if req_dir_x req > 0 then x else - (req_pw req - x) + w,
      if req_dir_y req > 0 then y else - (req_ph req - y) + h)"

text \<open>
  The test of the first tile (lines 289--292 and 322--325, the same text in both
  strategies): is the tile already inside the viewport at the current scroll offset?
\<close>

definition no_scroll :: "request \<Rightarrow> int \<times> int \<Rightarrow> int \<Rightarrow> int \<Rightarrow> bool" where
  "no_scroll req target w h =
     (let sx' = fst target; sy' = snd target;
          no_scroll_x = (if req_dir_x req > 0
                         then sx' \<ge> req_sx req \<and> sx' + w \<le> req_sx req + req_vw req
                         else sx' \<le> req_sx req \<and> sx' - w \<ge> req_sx req - req_vw req);
          no_scroll_y = (if req_dir_y req > 0
                         then sy' \<ge> req_sy req \<and> sy' + h \<le> req_sy req + req_vh req
                         else sy' \<le> req_sy req \<and> sy' - h \<ge> req_sy req - req_vh req)
      in no_scroll_x \<and> no_scroll_y)"

text \<open>The offset returned when no scrolling is needed (lines 294--297 and 327--330).\<close>

definition visible_offset :: "request \<Rightarrow> int \<times> int \<Rightarrow> int \<Rightarrow> int \<Rightarrow> int \<times> int" where
  "visible_offset req target w h =
     (if req_dir_x req > 0 then fst target - req_sx req
      else req_vw req - (req_sx req - fst target + w),
      if req_dir_y req > 0 then snd target - req_sy req
      else req_vh req - (req_sy req - snd target + h))"

text \<open>
  \<open>updateScrollPosition\<close> of the CSS strategy (lines 283--306).  The result is the offset
  of the tile inside the captured viewport and the new state.
\<close>

definition css_updateScrollPosition ::
  "request \<Rightarrow> bool \<Rightarrow> int \<Rightarrow> int \<Rightarrow> int \<Rightarrow> int \<Rightarrow> scroll_state \<Rightarrow> (int \<times> int) \<times> scroll_state" where
  "css_updateScrollPosition req has_translate x y w h st =
     (let target = css_scroll_target req x y w h;
          scrolled = (if req_dir_x req > 0 then 0 else req_vw req - w,
                      if req_dir_y req > 0 then 0 else req_vh req - h)
      in if is_first st then
           (let st1 = st\<lparr>is_first := False\<rparr>
            in if no_scroll req target w h then (visible_offset req target w h, st1)
               else (scrolled,
                     applyCssScroll has_translate (fst target) (snd target) (resetScrollPosition st1)))
         else (scrolled, applyCssScroll has_translate (fst target) (snd target) st))"

text \<open>
  \<open>updateScrollPosition\<close> of the scripted-scroll strategy (lines 316--339).  Here
  \<open>resetScrollPosition\<close> follows the \<open>if (is_first)\<close> block, so it runs for every tile
  that is not returned early.
\<close>

definition js_updateScrollPosition ::
  "request \<Rightarrow> int \<Rightarrow> int \<Rightarrow> int \<Rightarrow> int \<Rightarrow> scroll_state \<Rightarrow> (int \<times> int) \<times> scroll_state" where
  "js_updateScrollPosition req x y w h st =
     (let target = js_scroll_target req x y w h;
          scrolled = (if x \<le> req_pw req - req_vw req then 0 else req_vw req - w,
                      if y \<le> req_ph req - req_vh req then 0 else req_vh req - h)
      in if is_first st then
           (let st1 = st\<lparr>is_first := False\<rparr>
            in if no_scroll req target w h then (visible_offset req target w h, st1)
               else (scrolled, resetScrollPosition st1))
         else (scrolled, resetScrollPosition st))"

section \<open>Capture jobs (lines 154--162, 342--356, 374--473)\<close>

text \<open>\<open>use_native\<close> (lines 154--155); \<open>scl\<close> is the scale in effect (line 116).\<close>

definition use_native :: "env \<Rightarrow> rat \<Rightarrow> bool" where
  "use_native e scl = (82 \<le> BROWSER_VERSION_MAJOR e \<or> (scl = 1 \<and> drawWindow e))"

definition use_css_croll :: "env \<Rightarrow> rat \<Rightarrow> bool" where
  "use_css_croll e scl = (\<not> use_native e scl)"

definition use_js_scroll :: "env \<Rightarrow> rat \<Rightarrow> bool" where
  "use_js_scroll e scl = (\<not> use_native e scl \<and> \<not> use_css_croll e scl)"

text \<open>
  The set-up of the compensator (lines 186--340): the CSS strategy stores its restoring
  function, starts \<open>tasks\<close> with the removal of \<open>css_reset\<close> and reads the root style;
  the scripted strategy stores its own restoring function.
\<close>

definition init_compensator :: "env \<Rightarrow> rat \<Rightarrow> scroll_state \<Rightarrow> scroll_state" where
  "init_compensator e scl st =
     (if use_css_croll e scl then
        emit [ExecuteScript ReadRootStyle]
          (st\<lparr>restore_slot := RestoreCss, tasks := [CssReset], is_first := True\<rparr>)
      else if use_js_scroll e scl then st\<lparr>restore_slot := RestoreJs, is_first := True\<rparr>
      else st)"

text \<open>Lines 342--356: a full-page capture without the CSS strategy starts from the origin.\<close>

definition full_page_reset :: "env \<Rightarrow> request \<Rightarrow> rat \<Rightarrow> scroll_state \<Rightarrow> scroll_state" where
  "full_page_reset e req scl st =
     (let use_scroll = (use_css_croll e scl \<or> use_js_scroll e scl)
      in if req_region req = Full \<and> \<not> use_css_croll e scl then
           resetScrollPosition
             (if \<not> use_scroll \<and> use_native e scl then st\<lparr>restore_slot := RestoreNative\<rparr> else st)
         else st)"

text \<open>
  The capture rectangle of the native path (lines 396--397), for a tile whose page
  coordinates \<open>left\<close>, \<open>top\<close> are \<open>(pleft, ptop)\<close>.
\<close>

definition native_rect :: "request \<Rightarrow> int \<Rightarrow> int \<Rightarrow> int \<Rightarrow> int \<Rightarrow> int \<times> int" where
  "native_rect req pleft ptop w h =
     (if req_dir_x req > 0 then pleft else min (- (req_pw req - pleft) + req_vw req) (req_vw req - w),
      if req_dir_y req > 0 then ptop else min (- (req_ph req - ptop) + req_vh req) (req_vh req - h))"

text \<open>
  The jobs one tile pushes on \<open>jobs\<close> (lines 386--431), run in order: the badge text,
  then either one native capture of the tile rectangle, or the compensator followed by a
  capture of the viewport.  The result is \<open>pos\<close>, where the tile starts in the captured
  image.  \<open>updateScrollPosition\<close> is the function of the CSS strategy when
  \<open>use_css_croll\<close> holds and that of the scripted strategy otherwise.
\<close>

definition capture_job ::
  "env \<Rightarrow> request \<Rightarrow> rat \<Rightarrow> int \<Rightarrow> tile \<Rightarrow> scroll_state \<Rightarrow> (int \<times> int) \<times> scroll_state" where
  "capture_job e req scl count t st =
     (let pleft = req_left req + tx t;
          ptop = req_top req + ty t;
          st1 = (if badge e then emit [SetBadgeText (Count count)] st else st)
      in if use_native e scl then
           (let r = native_rect req pleft ptop (tw t) (th t)
            in ((0, 0),
                emit [if 82 \<le> BROWSER_VERSION_MAJOR e
                      then CaptureTabRect (fst r) (snd r) (tw t) (th t) scl
                      else DrawWindow (fst r) (snd r) (tw t) (th t)] st1))
         else
           (let (pos, st2) =
                  (if use_css_croll e scl
                   then css_updateScrollPosition req (style_translate e) pleft ptop (tw t) (th t) st1
                   else js_updateScrollPosition req pleft ptop (tw t) (th t) st1)
            in (pos,
                emit [if 59 \<le> BROWSER_VERSION_MAJOR e then CaptureTab else CaptureVisibleTab] st2)))"

text \<open>
  Modelled from the spec: the class \<open>JobQueue\<close> is used by background.js but defined
  elsewhere.  Its sequential run executes all queued tasks strictly one after another in
  insertion order.  \<open>run_jobs\<close> is \<open>jobs.serial()\<close> over the jobs of all tiles, in the
  order the planner pushed them.  \<open>count\<close> is decremented by each badge job.  The result
  pairs every tile with its \<open>pos\<close>, which is what the decode task of the tile is given.
\<close>

fun run_jobs ::
  "env \<Rightarrow> request \<Rightarrow> rat \<Rightarrow> int \<Rightarrow> tile list \<Rightarrow> scroll_state
     \<Rightarrow> (tile \<times> (int \<times> int)) list \<times> scroll_state" where
  "run_jobs e req scl count [] st = ([], st)"
| "run_jobs e req scl count (t # ts) st =
     (let (pos, st1) = capture_job e req scl count t st;
          (ds, st2) = run_jobs e req scl (count - 1) ts st1
      in ((t, pos) # ds, st2))"

text \<open>
  Lines 154--473 on the way without failure: set-up, per-tile maxima, badge, the planner
  loops, the jobs, and the restoring call of line 473.  \<open>None\<close> when the planner loops
  never return.
\<close>

definition capture_phase ::
  "env \<Rightarrow> request \<Rightarrow> rat \<Rightarrow> scroll_state \<Rightarrow> ((tile \<times> (int \<times> int)) list \<times> scroll_state) option" where
  "capture_phase e req scl st =
     (let rw = req_width req; rh = req_height req;
          st1 = full_page_reset e req scl (init_compensator e scl st);
          m = tile_max (use_native e scl) rw rh (req_vw req) (req_vh req) scl;
          st2 = (if badge e
                 then emit [SetTitle BadgeCapturing, SetBadgeBackgroundColor Red] st1 else st1);
          count = \<lceil>fl (of_int rw / of_int (fst m))\<rceil> * \<lceil>fl (of_int rh / of_int (snd m))\<rceil>
      in case plan_tiles rw rh (fst m) (snd m) of
           None \<Rightarrow> None
         | Some ts \<Rightarrow>
             (let (ds, st3) = run_jobs e req scl count ts st2
              in Some (ds, restoreScrollPosition req st3)))"

section \<open>Copying a tile into the byte buffer (lines 451--466)\<close>

text \<open>
  A canvas: its size in device pixels and the colour of each pixel.  Reading outside the
  canvas gives transparent black.
\<close>

record canvas =
  cwidth :: int
  cheight :: int
  pixel :: "int \<Rightarrow> int \<Rightarrow> rgba"

definition rgba_bytes :: "rgba \<Rightarrow> byte list" where
  "rgba_bytes p = (case p of (r, g, b, a) \<Rightarrow> [r, g, b, a])"

definition canvas_pixel :: "canvas \<Rightarrow> int \<Rightarrow> int \<Rightarrow> byte list" where
  "canvas_pixel c row col =
     (if 0 \<le> col \<and> col < cwidth c \<and> 0 \<le> row \<and> row < cheight c
      then rgba_bytes (pixel c col row) else [0, 0, 0, 0])"

text \<open>
  \<open>ctx.getImageData(sx, sy, sw, sh).data\<close>: the arguments are converted to integers by
  truncation, a width or height of zero is an error, a negative one extends to the left
  or upwards, and the bytes are those of the rectangle row after row.
\<close>

definition getImageData :: "canvas \<Rightarrow> rat \<Rightarrow> rat \<Rightarrow> rat \<Rightarrow> rat \<Rightarrow> error + byte list" where
  "getImageData c sx sy sw sh =
     (let x = Math_trunc sx; y = Math_trunc sy; w = Math_trunc sw; h = Math_trunc sh
      in if w = 0 \<or> h = 0 then Inl IndexSizeError
         else
           (let cols = (if w < 0 then [x + w .. x - 1] else [x .. x + w - 1]);
                rows = (if h < 0 then [y + h .. y - 1] else [y .. y + h - 1])
            in Inr (concat (map (\<lambda>row. concat (map (canvas_pixel c row) cols)) rows))))"

text \<open>
  \<open>content.set(source, offset)\<close> on a \<open>Uint8Array\<close>: the offset is truncated to an
  integer; a negative offset or a source that does not fit is a \<open>RangeError\<close> and
  nothing is written.
\<close>

definition typed_array_set :: "byte list \<Rightarrow> byte list \<Rightarrow> rat \<Rightarrow> error + byte list" where
  "typed_array_set content source offset =
     (let k = Math_trunc offset
      in if k < 0 \<or> int (length content) < k + int (length source) then Inl RangeError
         else Inr (take (nat k) content @ source @ drop (nat k + length source) content))"

text \<open>
  The canvas of one tile (lines 451--456): \<open>Math.trunc(w * scl)\<close> by
  \<open>Math.trunc(h * scl)\<close> device pixels, holding what \<open>drawImage\<close> painted.
\<close>

definition tile_canvas :: "(int \<Rightarrow> int \<Rightarrow> rgba) \<Rightarrow> int \<Rightarrow> int \<Rightarrow> rat \<Rightarrow> canvas" where
  "tile_canvas img w h scl =
     \<lparr>cwidth = Math_trunc (fl (of_int w * scl)), cheight = Math_trunc (fl (of_int h * scl)),
      pixel = img\<rparr>"

definition solid :: "rgba \<Rightarrow> int \<Rightarrow> int \<Rightarrow> rgba" where
  "solid p col row = p"

text \<open>
  The branch for a full-width tile (lines 459--460): one copy of the whole block, at the
  offset \<open>y * rw * scl * 4\<close>, which is evaluated from the left.
\<close>

definition copy_bulk :: "canvas \<Rightarrow> int \<Rightarrow> int \<Rightarrow> int \<Rightarrow> int \<Rightarrow> rat \<Rightarrow> byte list \<Rightarrow> error + byte list" where
  "copy_bulk cv y w h rw scl content =
     (case getImageData cv 0 0 (fl (of_int w * scl)) (fl (of_int h * scl)) of
        Inl err \<Rightarrow> Inl err
      | Inr d \<Rightarrow> typed_array_set content d (fl (fl (of_int (y * rw) * scl) * 4)))"

text \<open>
  The other branch (lines 462--465): the loop \<open>for (let i = 0; i < h * scl; i++)\<close>
  copies one row of device pixels at a time, row \<open>i\<close> at the offset
  \<open>((y + i) * rw * scl + x) * 4\<close>.  An error ends the loop.
\<close>

function copy_rows ::
  "canvas \<Rightarrow> int \<Rightarrow> int \<Rightarrow> int \<Rightarrow> int \<Rightarrow> int \<Rightarrow> rat \<Rightarrow> int \<Rightarrow> byte list \<Rightarrow> error + byte list" where
  "copy_rows cv x y w h rw scl i content =
     (if of_int i < fl (of_int h * scl) then
        (case getImageData cv 0 (of_int i) (fl (of_int w * scl)) 1 of
           Inl err \<Rightarrow> Inl err
         | Inr d \<Rightarrow>
             (case typed_array_set content d
                     (fl (fl (fl (of_int ((y + i) * rw) * scl) + of_int x) * 4)) of
                Inl err \<Rightarrow> Inl err
              | Inr content' \<Rightarrow> copy_rows cv x y w h rw scl (i + 1) content'))
      else Inr content)"
  by pat_completeness auto
termination
  by (relation "measure (\<lambda>(cv, x, y, w, h, rw, scl, i, content). nat (\<lceil>fl (of_int h * scl)\<rceil> - i))")
     (auto simp: less_ceiling_iff)

declare copy_rows.simps [simp del]

text \<open>The choice between the two branches (line 458).\<close>

definition copy_tile ::
  "canvas \<Rightarrow> int \<Rightarrow> int \<Rightarrow> int \<Rightarrow> int \<Rightarrow> int \<Rightarrow> rat \<Rightarrow> byte list \<Rightarrow> error + byte list" where
  "copy_tile cv x y w h rw scl content =
     (if x = 0 \<and> w = rw then copy_bulk cv y w h rw scl content
      else copy_rows cv x y w h rw scl 0 content)"

text \<open>The bytes of one row of a canvas, \<open>W\<close> pixels from the left edge.\<close>

definition row_bytes :: "canvas \<Rightarrow> int \<Rightarrow> int \<Rightarrow> byte list" where
  "row_bytes c W row = concat (map (canvas_pixel c row) [0 .. W - 1])"

section \<open>Compositing, encoding and delivery (lines 444--601)\<close>

text \<open>
  Modelled from the spec: the parallel run of a \<open>JobQueue\<close> executes all queued tasks
  with no ordering guarantee and waits for all of them to finish, rejecting if any fails.
  The decode tasks (lines 444--467) are listed in the order they were pushed: a tile is
  drawn on the drawable surface, or copied into the byte buffer.
\<close>

definition decode_events :: "bool \<Rightarrow> (tile \<times> (int \<times> int)) list \<Rightarrow> event list" where
  "decode_events oc ds = map (\<lambda>(t, pos). if oc then DrawImage t pos else BufferCopy t pos) ds"

text \<open>
  The copies into the byte buffer, tile after tile in the order the tasks were pushed
  (lines 450--466): each tile gets a canvas of its own, on which its capture is painted,
  and the pixels of that canvas are copied by \<open>copy_tile\<close>.  A copy that throws makes
  its task fail, and then the run of all tasks fails whatever the other tasks do, so the
  first error is the result.
\<close>

fun decode_tiles ::
  "env \<Rightarrow> int \<Rightarrow> rat \<Rightarrow> (tile \<times> (int \<times> int)) list \<Rightarrow> byte list \<Rightarrow> error + byte list" where
  "decode_tiles e rw scl [] bytes = Inr bytes"
| "decode_tiles e rw scl ((t, pos) # ds) bytes =
     (case copy_tile (tile_canvas (painted e t pos) (tw t) (th t) scl)
             (tx t) (ty t) (tw t) (th t) rw scl bytes of
        Inl err \<Rightarrow> Inl err
      | Inr bytes' \<Rightarrow> decode_tiles e rw scl ds bytes')"

text \<open>
  \<open>await decoding.parallel()\<close> (line 483): the error that makes it reject, if any.
  Drawing on the drawable surface does not throw; the byte buffer is the array of
  \<open>n\<close> zero bytes that \<open>new Uint8Array(size)\<close> made.
\<close>

definition decoding_parallel ::
  "env \<Rightarrow> int \<Rightarrow> rat \<Rightarrow> content \<Rightarrow> (tile \<times> (int \<times> int)) list \<Rightarrow> error option" where
  "decoding_parallel e rw scl buf ds =
     (case buf of
        Canvas2D W H \<Rightarrow> None
      | Uint8Array n \<Rightarrow>
          (case decode_tiles e rw scl ds (replicate (nat n) 0) of
             Inl err \<Rightarrow> Some err
           | Inr bytes \<Rightarrow> None))"

datatype outcome = Dropped | ImageTooLarge | Delivered | Failed

text \<open>
  Lines 484--521.  The drawable surface is turned into bytes directly.  The byte buffer
  goes to the encoder worker under the lock \<open>'worker'\<close>: a non-blocking attempt first,
  and when that fails a notice and a blocking attempt.  The result is whether the encoder
  answered, the calls made and the lock table.
\<close>

definition encode :: "env \<Rightarrow> nat \<Rightarrow> bool \<Rightarrow> lock_table \<Rightarrow> bool \<times> event list \<times> lock_table" where
  "encode e who oc tbl =
     (if oc then (True, [CanvasToBytes], tbl)
      else
        (let lock_time = 1000 * 60 * 15;
             (free, tbl1) = acquire who WorkerKey lock_time (t_worker e) tbl;
             evs = (if free then []
                    else Notify WarningWorkerBusy #
                         (if badge e
                          then [SetTitle BadgeSaving, SetBadgeText Dots, SetBadgeBackgroundColor Green]
                          else []));
             tbl2 = (if free then tbl1
                     else snd (acquire_blocking who WorkerKey lock_time (t_worker e) tbl1))
         in (worker_ok e, evs @ [WorkerEncode, WorkerTerminate], release WorkerKey tbl2)))"

text \<open>
  Lines 523--601: the clipboard, the content script's link, or a download whose end is
  awaited.  The result is whether the delivery succeeded and the calls made.
\<close>

definition deliver :: "env \<Rightarrow> request \<Rightarrow> bool \<times> event list" where
  "deliver e req =
     (if req_format req = Copy then
        (True, ClipboardSetImageData # (if copynotification e then [Notify InfoScreenshotCopied] else []))
      else
        (let evs = (if image_comment e then [ApplyImageComment] else [])
         in if savemethod e = Open then (True, evs @ [TriggerOpen])
            else
              (let saveAs = (savemethod e = SaveAs);
                   start = [CreateObjectURL, AddDownloadListener, Download saveAs];
                   cleanup = [RevokeObjectURL, RemoveDownloadListener]
               in if download_ok e then
                    (True, evs @ start @ [RevokeObjectURL] @
                           (if \<not> saveAs \<and> savenotification e then [Notify InfoScreenshotSaved] else []) @
                           cleanup)
                  else (False, evs @ start @ [RevokeObjectURL] @ cleanup))))"

section \<open>\<open>TakeScreenshot\<close> (lines 91--622)\<close>

record result =
  outcome :: outcome
  trace :: "event list"
  locks :: lock_table

text \<open>
  The \<open>finally\<close> block (lines 606--621): when the tab key can be locked, the badge is
  cleared, the toolbar button enabled and the key unlocked; the key \<open>'worker'\<close> is
  unlocked in every case.
\<close>

definition finally_block :: "env \<Rightarrow> nat \<Rightarrow> int \<Rightarrow> outcome \<Rightarrow> event list \<Rightarrow> lock_table \<Rightarrow> result" where
  "finally_block e who tab out evs tbl =
     (let key = BrowserActionKey tab;
          (free, tbl1) = acquire who key (1000 * 60 * 5) (t_finally e) tbl
      in if free then
           \<lparr>outcome = out,
            trace = evs @ (if badge e
                           then [SetTitle NoTitle, SetBadgeText NoText, SetBadgeBackgroundColor NoColor]
                           else []) @ [Enable],
            locks = release WorkerKey (release key tbl1)\<rparr>
         else \<lparr>outcome = out, trace = evs, locks = release WorkerKey tbl1\<rparr>)"

text \<open>
  The \<open>catch\<close> block (lines 602--605) after a failed copy, encode or download.  It logs the
  error; the message of the next statement reads \<open>filename\<close>, a \<open>const\<close> of the \<open>try\<close>
  block that is not in scope here, so that statement and the restoring call after it are
  not reached.
\<close>

definition catch_block :: "event list" where
  "catch_block = [ConsoleError]"

text \<open>
  Lines 474--601 after the jobs: badge, button and tab key are released, the decode tasks
  run, the image is encoded and delivered.  When a decode task throws, the \<open>await\<close> of
  line 483 throws and the \<open>catch\<close> block is next.

  Modelled from the spec: the function \<open>abort\<close>, called when the encoder or the download
  fails, is defined outside background.js; such a failure is fatal for the request and
  ends in the \<open>catch\<close> block.
\<close>

definition finish_request ::
  "env \<Rightarrow> nat \<Rightarrow> request \<Rightarrow> int \<Rightarrow> rat \<Rightarrow> bool \<Rightarrow> content \<Rightarrow> (tile \<times> (int \<times> int)) list
     \<Rightarrow> event list \<Rightarrow> lock_table \<Rightarrow> result" where
  "finish_request e who req tab scl oc buf ds evs tbl =
     (let evs1 = evs @
                 (if badge e
                  then [SetTitle BadgeSaving, SetBadgeText Dots, SetBadgeBackgroundColor Green]
                  else []) @ [Enable];
          tbl1 = release (BrowserActionKey tab) tbl;
          evs2 = evs1 @ decode_events oc ds
      in case decoding_parallel e (req_width req) scl buf ds of
           Some err \<Rightarrow> finally_block e who tab Failed (evs2 @ catch_block) tbl1
         | None \<Rightarrow>
             (let (encoded, evs3, tbl2) = encode e who oc tbl1
              in if \<not> encoded then finally_block e who tab Failed (evs2 @ evs3 @ catch_block) tbl2
                 else
                   (let (done, evs4) = deliver e req
                    in if done then finally_block e who tab Delivered (evs2 @ evs3 @ evs4) tbl2
                       else finally_block e who tab Failed (evs2 @ evs3 @ evs4 @ catch_block) tbl2)))"

text \<open>
  The whole function.  \<open>who\<close> identifies the running request to the mutex, \<open>tab\<close> is
  \<open>tab.id\<close>.  The result is \<open>None\<close> when the planner loops never return.
\<close>

definition TakeScreenshot :: "env \<Rightarrow> nat \<Rightarrow> request \<Rightarrow> int \<Rightarrow> lock_table \<Rightarrow> result option" where
  "TakeScreenshot e who req tab tbl =
     (let key = BrowserActionKey tab;
          (free, tbl1) = acquire who key (1000 * 60 * 5) (t_lock e) tbl
      in if \<not> free then Some (finally_block e who tab Dropped [] tbl1)
         else
           (let rw = req_width req; rh = req_height req;
                scl = (if 82 \<le> BROWSER_VERSION_MAJOR e then req_scale req else 1);
                (c, evs) = prepare_content (alloc_ok e) rw rh scl
            in case c of
                 Inl err \<Rightarrow> Some (finally_block e who tab ImageTooLarge (Disable # evs) tbl1)
               | Inr buf \<Rightarrow>
                   (case capture_phase e req scl
                           \<lparr>restore_slot = RestoreNoop, tasks = [], is_first = True,
                            effects = Disable # evs\<rparr> of
                      None \<Rightarrow> None
                    | Some (ds, st) \<Rightarrow>
                        Some (finish_request e who req tab scl (one_canvas rw rh scl) buf ds
                                (effects st) tbl1))))"

section \<open>Concrete inputs\<close>

text \<open>An opaque white pixel.\<close>

definition white :: rgba where
  "white = (255, 255, 255, 255)"

text \<open>
  A browser of version 100 with a badge, in which an allocation of up to \<open>2 ^ 32\<close> bytes
  succeeds and every capture is a white image, and a full-page request of a given size and
  scale on a 1280 by 720 viewport.
\<close>

definition example_env :: env where
  "example_env = \<lparr>BROWSER_VERSION_MAJOR = 100, badge = True, drawWindow = False,
     style_translate = True, alloc_ok = (\<lambda>n. n \<le> 2 ^ 32), painted = (\<lambda>t pos. solid white),
     savemethod = Silent,
     image_comment = False, copynotification = True, savenotification = True,
     worker_ok = True, download_ok = True, t_lock = 0, t_worker = 1000, t_finally = 2000\<rparr>"

definition example_request :: "int \<Rightarrow> int \<Rightarrow> rat \<Rightarrow> request" where
  "example_request w h s = \<lparr>req_vw = 1280, req_vh = 720, req_pw = w, req_ph = h,
     req_width = w, req_height = h, req_left = 0, req_top = 0, req_sx = 0, req_sy = 0,
     req_spx = 0, req_spy = 0, req_dir_x = 1, req_dir_y = 1, req_scale = s,
     req_format = Png, req_region = Full\<rparr>"

text \<open>The lock table in which no key is held.\<close>

definition no_locks :: lock_table where
  "no_locks = Map.empty"

text \<open>
  A compensator state of the CSS strategy after one tile was moved into view, a request
  whose region extends from the right edge of the page, and a lock table in which the
  key of tab 3 is held by another request until time 300000.
\<close>

definition example_scroll_state :: scroll_state where
  "example_scroll_state =
     \<lparr>restore_slot = RestoreCss, tasks = [CssReset, CssTranslate 1280 0], is_first = False,
      effects = [InsertCSS CssReset, InsertCSS (CssTranslate 1280 0)]\<rparr>"

definition example_request_rtl :: request where
  "example_request_rtl = \<lparr>req_vw = 1280, req_vh = 720, req_pw = 3000, req_ph = 5000,
     req_width = 3000, req_height = 5000, req_left = 0, req_top = 0, req_sx = 0, req_sy = 0,
     req_spx = 0, req_spy = 0, req_dir_x = - 1, req_dir_y = 1, req_scale = 1,
     req_format = Png, req_region = Selection\<rparr>"

definition held_locks :: lock_table where
  "held_locks = no_locks(BrowserActionKey 3 \<mapsto> \<lparr>holder = 1, expiry = 300000\<rparr>)"

section \<open>Rounding to a double\<close>

text \<open>
  Rounding to the nearest whole number moves a number by at most one half and keeps whole
  numbers and the order with respect to whole numbers.  For a positive \<open>x\<close> the exponent
  \<open>binade x\<close> is the one with \<open>2 powi binade x \<le> x < 2 powi (binade x + 1)\<close>, so that
  \<open>fl x\<close> has a relative error of at most \<open>2\<^sup>-\<^sup>5\<^sup>3\<close>, and a whole number below \<open>2\<^sup>5\<^sup>3\<close>
  times a power of two is a double.
\<close>

lemma round_half_even_error: "\<bar>of_int (round_half_even y) - y\<bar> \<le> 1 / 2"
  unfolding round_half_even_def Let_def
  by (auto simp: abs_if) linarith+

lemma round_half_even_of_int: "round_half_even (of_int m) = m"
  by (simp add: round_half_even_def)

lemma round_half_even_ge: "of_int n \<le> y \<Longrightarrow> n \<le> round_half_even y"
  unfolding round_half_even_def Let_def
  by (auto simp: le_floor_iff) (linarith)+

lemma round_half_even_le: "y \<le> of_int n \<Longrightarrow> round_half_even y \<le> n"
  unfolding round_half_even_def Let_def
  by (auto simp: floor_le_iff)

lemma powi_less_cancel: "(2::rat) powi m < 2 powi n \<Longrightarrow> m < n"
  using power_int_increasing[of n m "2::rat"] by (cases "m < n") simp_all

lemma bitlen_rat:
  assumes "0 < a"
  shows "2 powi (bitlen a - 1) \<le> (of_int a :: rat)" and "(of_int a :: rat) < 2 powi bitlen a"
proof -
  have p: "1 \<le> bitlen a" using assms by (auto simp: bitlen_alt_def)
  from bitlen_bounds[OF assms] have "2 ^ nat (bitlen a - 1) \<le> a" "a < 2 ^ nat (bitlen a)" by simp_all
  then have "(of_int (2 ^ nat (bitlen a - 1)) :: rat) \<le> of_int a" "(of_int a :: rat) < of_int (2 ^ nat (bitlen a))"
    by (simp_all only: of_int_le_iff of_int_less_iff)
  then show "2 powi (bitlen a - 1) \<le> (of_int a :: rat)" and "(of_int a :: rat) < 2 powi bitlen a"
    using p by (simp_all add: power_int_nonneg_exp)
qed

lemma binade_bounds:
  assumes "0 < x"
  shows "2 powi binade x \<le> x" and "x < 2 powi (binade x + 1)"
proof -
  obtain a b where q: "quotient_of x = (a, b)" by (cases "quotient_of x")
  have b: "0 < b" using quotient_of_denom_pos[OF q] .
  have x: "x = of_int a / of_int b" using quotient_of_div[OF q] .
  have a: "0 < a" using assms b unfolding x by (simp add: zero_less_divide_iff)
  define e where "e = bitlen a - bitlen b"
  have bd: "binade x = (if 2 powi e \<le> x then e else e - 1)"
    using assms q by (simp add: binade_def e_def Let_def)
  note A = bitlen_rat[OF a] and B = bitlen_rat[OF b]
  have bpos: "(0::rat) < of_int b" using b by simp
  have up: "x < 2 powi (e + 1)"
  proof -
    have "of_int a < (2::rat) powi bitlen a" by (rule A(2))
    also have "\<dots> = 2 powi (e + 1) * 2 powi (bitlen b - 1)"
      by (simp add: e_def power_int_add[symmetric])
    also have "\<dots> \<le> 2 powi (e + 1) * of_int b"
      using B(1) by (intro mult_left_mono) simp_all
    finally show ?thesis unfolding x using bpos by (simp add: pos_divide_less_eq)
  qed
  have lo: "2 powi (e - 1) \<le> x"
  proof -
    have "(2::rat) powi (e - 1) * of_int b \<le> 2 powi (e - 1) * 2 powi bitlen b"
      using B(2) by (intro mult_left_mono) simp_all
    also have "\<dots> = 2 powi (bitlen a - 1)" by (simp add: e_def power_int_add[symmetric])
    also have "\<dots> \<le> of_int a" by (rule A(1))
    finally show ?thesis unfolding x using bpos by (simp add: pos_le_divide_eq)
  qed
  show "2 powi binade x \<le> x" using lo unfolding bd by simp
  show "x < 2 powi (binade x + 1)" using up unfolding bd by (simp add: not_le)
qed

lemma binade_unique:
  assumes "0 < x" and "2 powi e \<le> x" and "x < 2 powi (e + 1)"
  shows "binade x = e"
proof (rule antisym)
  have "(2::rat) powi binade x < 2 powi (e + 1)"
    using binade_bounds(1)[OF assms(1)] assms(3) by simp
  then have "binade x < e + 1" by (rule powi_less_cancel)
  then show "binade x \<le> e" by simp
  have "(2::rat) powi e < 2 powi (binade x + 1)"
    using binade_bounds(2)[OF assms(1)] assms(2) by simp
  then have "e < binade x + 1" by (rule powi_less_cancel)
  then show "e \<le> binade x" by simp
qed


lemma fl_mantissa:
  assumes "0 < x"
  shows "2 ^ 52 \<le> x / 2 powi (binade x - 52)" and "x / 2 powi (binade x - 52) < 2 ^ 53"
proof -
  define u where "u = (2::rat) powi (binade x - 52)"
  have u: "0 < u" by (simp add: u_def zero_less_power_int)
  have "(2::rat) powi 52 = 2 powi (binade x - (binade x - 52))" by simp
  also have "\<dots> = 2 powi binade x / u" unfolding u_def by (rule power_int_diff) simp
  finally have lo: "2 powi binade x / u = 2 ^ 52" by simp
  have "(2::rat) powi 53 = 2 powi ((binade x + 1) - (binade x - 52))" by simp
  also have "\<dots> = 2 powi (binade x + 1) / u" unfolding u_def by (rule power_int_diff) simp
  finally have hi: "2 powi (binade x + 1) / u = 2 ^ 53" by simp
  have "2 powi binade x / u \<le> x / u"
    using binade_bounds(1)[OF assms] u by (intro divide_right_mono) simp_all
  then have "2 ^ 52 \<le> x / u" unfolding lo .
  then show "2 ^ 52 \<le> x / 2 powi (binade x - 52)" unfolding u_def .
  have "x / u < 2 powi (binade x + 1) / u"
    using binade_bounds(2)[OF assms] u by (intro divide_strict_right_mono) simp_all
  then have "x / u < 2 ^ 53" unfolding hi .
  then show "x / 2 powi (binade x - 52) < 2 ^ 53" unfolding u_def .
qed

lemma fl_bounds:
  assumes "0 < x"
  shows "2 powi binade x \<le> fl x" and "\<bar>fl x - x\<bar> \<le> x / 2 ^ 53"
proof -
  define u where "u = (2::rat) powi (binade x - 52)"
  define m where "m = x / u"
  have u: "0 < u" by (simp add: u_def zero_less_power_int)
  have f: "fl x = of_int (round_half_even m) * u"
    using assms by (simp add: fl_def m_def u_def)
  have xm: "x = m * u" using u by (simp add: m_def)
  have "(2::rat) powi binade x = 2 powi ((binade x - 52) + 52)" by simp
  also have "\<dots> = u * 2 powi 52" unfolding u_def by (rule power_int_add) simp
  finally have ub: "2 powi binade x = 2 ^ 52 * u" by simp
  have "(of_int (2 ^ 52) :: rat) \<le> m" using fl_mantissa(1)[OF assms] by (simp add: m_def u_def)
  then have "2 ^ 52 \<le> round_half_even m" by (rule round_half_even_ge)
  then have "(of_int (2 ^ 52) :: rat) \<le> of_int (round_half_even m)" by (simp only: of_int_le_iff)
  then have "2 ^ 52 * u \<le> of_int (round_half_even m) * u"
    using u by (intro mult_right_mono) simp_all
  then show "2 powi binade x \<le> fl x" unfolding ub f .
  have "fl x - x = (of_int (round_half_even m) - m) * u" unfolding f by (subst xm) (simp add: algebra_simps)
  then have "\<bar>fl x - x\<bar> = \<bar>of_int (round_half_even m) - m\<bar> * u"
    using u by (simp add: abs_mult)
  also have "\<dots> \<le> 1 / 2 * u" using round_half_even_error[of m] u by (intro mult_right_mono) simp_all
  also have "\<dots> = 2 powi binade x / 2 ^ 53" unfolding ub by simp
  also have "\<dots> \<le> x / 2 ^ 53" using binade_bounds(1)[OF assms] by (intro divide_right_mono) simp_all
  finally show "\<bar>fl x - x\<bar> \<le> x / 2 ^ 53" .
qed

lemma fl_pos:
  assumes "0 < x"
  shows "0 < fl x"
proof -
  have "(0::rat) < 2 powi binade x" by (simp add: zero_less_power_int)
  then show ?thesis using fl_bounds(1)[OF assms] by linarith
qed

lemma fl_ge_one:
  assumes "1 \<le> x"
  shows "1 \<le> fl x"
proof -
  have x: "0 < x" using assms by simp
  have "(2::rat) powi 0 < 2 powi (binade x + 1)" using binade_bounds(2)[OF x] assms by simp
  then have "0 < binade x + 1" by (rule powi_less_cancel)
  then have "0 \<le> binade x" by simp
  then have "(1::rat) \<le> 2 powi binade x" by simp
  then show ?thesis using fl_bounds(1)[OF x] by simp
qed

lemma fl_rel:
  assumes "0 < x"
  shows "x * (999 / 1000) \<le> fl x" and "fl x \<le> x * (1001 / 1000)"
proof -
  have "x / 2 ^ 53 \<le> x / 1000" using assms by (intro divide_left_mono) simp_all
  then have "\<bar>fl x - x\<bar> \<le> x / 1000" using fl_bounds(2)[OF assms] by simp
  then have "fl x - x \<le> x / 1000" and "x - fl x \<le> x / 1000" by linarith+
  then show "x * (999 / 1000) \<le> fl x" and "fl x \<le> x * (1001 / 1000)" by simp_all
qed

lemma fl_exact:
  assumes "0 \<le> n" and "n < 2 ^ 53"
  shows "fl (of_int n * 2 powi k) = of_int n * 2 powi k"
proof (cases "n = 0")
  case True
  then show ?thesis by (simp add: fl_def)
next
  case False
  define x where "x = (of_int n :: rat) * 2 powi k"
  define b where "b = binade x"
  have n: "0 < n" using assms(1) False by simp
  have x: "0 < x" using n by (simp add: x_def zero_less_power_int)
  have "(of_int n :: rat) < of_int (2 ^ 53)" using assms(2) by (simp only: of_int_less_iff)
  then have "x < 2 powi 53 * 2 powi k" unfolding x_def
    by (intro mult_strict_right_mono) (simp_all add: zero_less_power_int)
  also have "\<dots> = 2 powi (53 + k)" by (rule power_int_add[symmetric]) simp
  finally have "(2::rat) powi b < 2 powi (53 + k)" using binade_bounds(1)[OF x] unfolding b_def by simp
  then have "b < 53 + k" by (rule powi_less_cancel)
  then have j: "0 \<le> k - (b - 52)" by simp
  have "(2::rat) powi (k - (b - 52)) = 2 powi k / 2 powi (b - 52)" by (rule power_int_diff) simp
  then have "x / 2 powi (b - 52) = of_int n * 2 powi (k - (b - 52))" by (simp add: x_def)
  also have "\<dots> = of_int (n * 2 ^ nat (k - (b - 52)))" using j by (simp add: power_int_nonneg_exp)
  finally have m: "x / 2 powi (b - 52) = of_int (n * 2 ^ nat (k - (b - 52)))" .
  have "fl x = of_int (round_half_even (x / 2 powi (b - 52))) * 2 powi (b - 52)"
    using x by (simp add: fl_def b_def)
  also have "\<dots> = x / 2 powi (b - 52) * 2 powi (b - 52)" unfolding m round_half_even_of_int ..
  also have "\<dots> = x" by simp
  finally show ?thesis unfolding x_def .
qed

lemma fl_of_int: "0 \<le> n \<Longrightarrow> n < 2 ^ 53 \<Longrightarrow> fl (of_int n) = of_int n"
  using fl_exact[of n 0] by simp

lemma fl_half: "0 \<le> n \<Longrightarrow> n < 2 ^ 53 \<Longrightarrow> fl (of_int n / 2) = of_int n / 2"
  using fl_exact[of n "- 1"] by (simp add: power_int_minus field_simps)

section \<open>The planner partitions the region\<close>

lemma row_loop_spec:
  assumes mw: "0 < mw"
  shows "\<exists>ts. row_loop rw mw y h x acc = Some (acc @ ts) \<and> distinct ts \<and>
     (\<forall>t\<in>set ts. ty t = y \<and> th t = h \<and> x \<le> tx t \<and> 0 < tw t \<and> tx t + tw t \<le> rw
         \<and> tw t = min mw (rw - tx t) \<and> mw dvd tx t - x) \<and>
     (\<forall>p. x \<le> p \<and> p < rw \<longrightarrow> (\<exists>t\<in>set ts. tx t \<le> p \<and> p < tx t + tw t)) \<and>
     (\<forall>t\<in>set ts. \<forall>u\<in>set ts. \<forall>p. tx t \<le> p \<and> p < tx t + tw t \<and> tx u \<le> p \<and> p < tx u + tw u
         \<longrightarrow> t = u)"
proof (induction "nat (rw - x)" arbitrary: x acc rule: less_induct)
  case less
  show ?case
  proof (cases "x < rw")
    case False
    then show ?thesis by (subst row_loop.simps) simp
  next
    case True
    define t where "t = \<lparr>tx = x, ty = y, tw = (if x + mw \<le> rw then mw else rw - x), th = h\<rparr>"
    have "nat (rw - (x + mw)) < nat (rw - x)" using True mw by simp
    from less[OF this, of "acc @ [t]"] obtain ts where
      r: "row_loop rw mw y h (x + mw) (acc @ [t]) = Some ((acc @ [t]) @ ts)" and
      d: "distinct ts" and
      b: "\<forall>t\<in>set ts. ty t = y \<and> th t = h \<and> x + mw \<le> tx t \<and> 0 < tw t \<and> tx t + tw t \<le> rw
         \<and> tw t = min mw (rw - tx t) \<and> mw dvd tx t - (x + mw)" and
      c: "\<forall>p. x + mw \<le> p \<and> p < rw \<longrightarrow> (\<exists>t\<in>set ts. tx t \<le> p \<and> p < tx t + tw t)" and
      e: "\<forall>t\<in>set ts. \<forall>u\<in>set ts. \<forall>p. tx t \<le> p \<and> p < tx t + tw t \<and> tx u \<le> p \<and> p < tx u + tw u
         \<longrightarrow> t = u"
      by blast
    have tf: "tx t = x" "ty t = y" "th t = h" "tw t = min mw (rw - x)"
      by (simp_all add: t_def min_def)
    have 1: "row_loop rw mw y h x acc = Some (acc @ (t # ts))"
      using True r by (subst row_loop.simps) (simp add: t_def)
    have 2: "distinct (t # ts)" using d b tf mw by auto
    have dv: "mw dvd k - (x + mw) \<Longrightarrow> mw dvd k - x" for k
      using dvd_add[of mw "k - (x + mw)" mw] by simp
    have 3: "\<forall>u\<in>set (t # ts). ty u = y \<and> th u = h \<and> x \<le> tx u \<and> 0 < tw u \<and> tx u + tw u \<le> rw
         \<and> tw u = min mw (rw - tx u) \<and> mw dvd tx u - x"
    proof
      fix u assume "u \<in> set (t # ts)"
      then consider "u = t" | "u \<in> set ts" by auto
      then show "ty u = y \<and> th u = h \<and> x \<le> tx u \<and> 0 < tw u \<and> tx u + tw u \<le> rw
         \<and> tw u = min mw (rw - tx u) \<and> mw dvd tx u - x"
      proof cases
        case 1 then show ?thesis using tf mw True by (simp add: min_def)
      next
        case 2 then show ?thesis using b mw dv[of "tx u"] by auto
      qed
    qed
    have 4: "\<forall>p. x \<le> p \<and> p < rw \<longrightarrow> (\<exists>u\<in>set (t # ts). tx u \<le> p \<and> p < tx u + tw u)"
    proof (intro allI impI)
      fix p assume p: "x \<le> p \<and> p < rw"
      show "\<exists>u\<in>set (t # ts). tx u \<le> p \<and> p < tx u + tw u"
      proof (cases "p < x + mw")
        case True
        then have "tx t \<le> p \<and> p < tx t + tw t" using p tf by (simp add: min_def)
        then show ?thesis by auto
      next
        case False
        then show ?thesis using c p by auto
      qed
    qed
    have 5: "\<forall>u\<in>set (t # ts). \<forall>v\<in>set (t # ts). \<forall>p. tx u \<le> p \<and> p < tx u + tw u \<and> tx v \<le> p \<and> p < tx v + tw v
         \<longrightarrow> u = v"
    proof (intro ballI allI impI)
      fix u v p assume u: "u \<in> set (t # ts)" and v: "v \<in> set (t # ts)"
        and p: "tx u \<le> p \<and> p < tx u + tw u \<and> tx v \<le> p \<and> p < tx v + tw v"
      have far: "w \<in> set ts \<Longrightarrow> \<not> (tx t \<le> p \<and> p < tx t + tw t \<and> tx w \<le> p)" for w
        using b tf by (auto simp: min_def)
      consider "u = t" "v = t" | "u = t" "v \<in> set ts" | "u \<in> set ts" "v = t"
        | "u \<in> set ts" "v \<in> set ts" using u v by auto
      then show "u = v"
      proof cases
        case 1 then show ?thesis by simp
      next
        case 2 then show ?thesis using far[of v] p by simp
      next
        case 3 then show ?thesis using far[of u] p by simp
      next
        case 4 then show ?thesis using e p by blast
      qed
    qed
    show ?thesis
      apply (rule exI[of _ "t # ts"])
      using 1 2 3 4 5 by (intro conjI) assumption+
  qed
qed

lemma col_loop_spec:
  assumes mw: "0 < mw" and mh: "0 < mh" and rw: "0 < rw"
  shows "\<exists>ts. col_loop rw rh mw mh y acc = Some (acc @ ts) \<and> distinct ts \<and>
     (\<forall>t\<in>set ts. y \<le> ty t \<and> 0 \<le> tx t \<and> 0 < tw t \<and> 0 < th t \<and> tx t + tw t \<le> rw \<and>
         ty t + th t \<le> rh \<and> tw t = min mw (rw - tx t) \<and> th t = min mh (rh - ty t) \<and>
         mw dvd tx t \<and> mh dvd ty t - y) \<and>
     (\<forall>p q. 0 \<le> p \<and> p < rw \<and> y \<le> q \<and> q < rh \<longrightarrow> (\<exists>t\<in>set ts. covers t p q)) \<and>
     (\<forall>t\<in>set ts. \<forall>u\<in>set ts. \<forall>p q. covers t p q \<and> covers u p q \<longrightarrow> t = u)"
proof (induction "nat (rh - y)" arbitrary: y acc rule: less_induct)
  case less
  show ?case
  proof (cases "y < rh")
    case False
    then show ?thesis by (subst col_loop.simps) simp
  next
    case True
    define h where "h = (if y + mh \<le> rh then mh else rh - y)"
    have h: "h = min mh (rh - y)" "0 < h" "h \<le> mh" "y + h \<le> rh"
      using True mh by (auto simp: h_def min_def)
    from row_loop_spec[OF mw, of rw y h 0 acc] obtain rs where
      r1: "row_loop rw mw y h 0 acc = Some (acc @ rs)" and
      r2: "distinct rs" and
      r3: "\<forall>t\<in>set rs. ty t = y \<and> th t = h \<and> 0 \<le> tx t \<and> 0 < tw t \<and> tx t + tw t \<le> rw
         \<and> tw t = min mw (rw - tx t) \<and> mw dvd tx t - 0" and
      r4: "\<forall>p. 0 \<le> p \<and> p < rw \<longrightarrow> (\<exists>t\<in>set rs. tx t \<le> p \<and> p < tx t + tw t)" and
      r5: "\<forall>t\<in>set rs. \<forall>u\<in>set rs. \<forall>p. tx t \<le> p \<and> p < tx t + tw t \<and> tx u \<le> p \<and> p < tx u + tw u
         \<longrightarrow> t = u"
      by blast
    have "nat (rh - (y + mh)) < nat (rh - y)" using True mh by simp
    from less[OF this, of "acc @ rs"] obtain ts where
      c1: "col_loop rw rh mw mh (y + mh) (acc @ rs) = Some ((acc @ rs) @ ts)" and
      c2: "distinct ts" and
      c3: "\<forall>t\<in>set ts. y + mh \<le> ty t \<and> 0 \<le> tx t \<and> 0 < tw t \<and> 0 < th t \<and> tx t + tw t \<le> rw \<and>
         ty t + th t \<le> rh \<and> tw t = min mw (rw - tx t) \<and> th t = min mh (rh - ty t) \<and>
         mw dvd tx t \<and> mh dvd ty t - (y + mh)" and
      c4: "\<forall>p q. 0 \<le> p \<and> p < rw \<and> y + mh \<le> q \<and> q < rh \<longrightarrow> (\<exists>t\<in>set ts. covers t p q)" and
      c5: "\<forall>t\<in>set ts. \<forall>u\<in>set ts. \<forall>p q. covers t p q \<and> covers u p q \<longrightarrow> t = u"
      by blast
    have 1: "col_loop rw rh mw mh y acc = Some (acc @ (rs @ ts))"
      using True r1 c1 by (subst col_loop.simps) (simp add: h_def)
    have sep: "t \<in> set rs \<Longrightarrow> u \<in> set ts \<Longrightarrow> ty t + th t \<le> ty u" for t u
      using r3 c3 h by fastforce
    have 2: "distinct (rs @ ts)"
    proof -
      have "set rs \<inter> set ts = {}"
      proof (rule ccontr)
        assume "set rs \<inter> set ts \<noteq> {}"
        then obtain t where t: "t \<in> set rs" "t \<in> set ts" by auto
        from sep[OF t] r3 t(1) h show False by auto
      qed
      then show ?thesis using r2 c2 by simp
    qed
    have dv: "mh dvd k - (y + mh) \<Longrightarrow> mh dvd k - y" for k
      using dvd_add[of mh "k - (y + mh)" mh] by simp
    have 3: "\<forall>t\<in>set (rs @ ts). y \<le> ty t \<and> 0 \<le> tx t \<and> 0 < tw t \<and> 0 < th t \<and> tx t + tw t \<le> rw \<and>
         ty t + th t \<le> rh \<and> tw t = min mw (rw - tx t) \<and> th t = min mh (rh - ty t) \<and>
         mw dvd tx t \<and> mh dvd ty t - y"
    proof
      fix t assume "t \<in> set (rs @ ts)"
      then consider "t \<in> set rs" | "t \<in> set ts" by auto
      then show "y \<le> ty t \<and> 0 \<le> tx t \<and> 0 < tw t \<and> 0 < th t \<and> tx t + tw t \<le> rw \<and>
         ty t + th t \<le> rh \<and> tw t = min mw (rw - tx t) \<and> th t = min mh (rh - ty t) \<and>
         mw dvd tx t \<and> mh dvd ty t - y"
      proof cases
        case 1
        with r3 have f: "ty t = y" "th t = h" "0 \<le> tx t" "0 < tw t" "tx t + tw t \<le> rw"
          "tw t = min mw (rw - tx t)" "mw dvd tx t" by auto
        show ?thesis using f(3-7) h unfolding f(1,2) by simp
      next
        case 2
        with c3 have f: "y + mh \<le> ty t" "0 \<le> tx t" "0 < tw t" "0 < th t" "tx t + tw t \<le> rw"
          "ty t + th t \<le> rh" "tw t = min mw (rw - tx t)" "th t = min mh (rh - ty t)"
          "mw dvd tx t" "mh dvd ty t - (y + mh)" by auto
        show ?thesis using f(1-9) dv[OF f(10)] mh by simp
      qed
    qed
    have 4: "\<forall>p q. 0 \<le> p \<and> p < rw \<and> y \<le> q \<and> q < rh \<longrightarrow> (\<exists>t\<in>set (rs @ ts). covers t p q)"
    proof (intro allI impI)
      fix p q assume pq: "0 \<le> p \<and> p < rw \<and> y \<le> q \<and> q < rh"
      show "\<exists>t\<in>set (rs @ ts). covers t p q"
      proof (cases "q < y + mh")
        case True
        from r4 pq obtain t where t: "t \<in> set rs" "tx t \<le> p \<and> p < tx t + tw t" by blast
        have "q < y + h" using True pq h by (simp add: min_def)
        then have "covers t p q" using t r3 pq by (simp add: covers_def)
        then show ?thesis using t(1) by auto
      next
        case False
        then have "0 \<le> p \<and> p < rw \<and> y + mh \<le> q \<and> q < rh" using pq by simp
        with c4 obtain t where "t \<in> set ts" "covers t p q" by blast
        then show ?thesis by auto
      qed
    qed
    have 5: "\<forall>t\<in>set (rs @ ts). \<forall>u\<in>set (rs @ ts). \<forall>p q. covers t p q \<and> covers u p q \<longrightarrow> t = u"
    proof (intro ballI allI impI)
      fix t u p q assume t: "t \<in> set (rs @ ts)" and u: "u \<in> set (rs @ ts)"
        and c: "covers t p q \<and> covers u p q"
      consider "t \<in> set rs" "u \<in> set rs" | "t \<in> set rs" "u \<in> set ts"
        | "t \<in> set ts" "u \<in> set rs" | "t \<in> set ts" "u \<in> set ts" using t u by auto
      then show "t = u"
      proof cases
        case 1 then show ?thesis using r5 c unfolding covers_def by blast
      next
        case 2 then show ?thesis using sep[of t u] c by (simp add: covers_def)
      next
        case 3 then show ?thesis using sep[of u t] c by (simp add: covers_def)
      next
        case 4 then show ?thesis using c5 c by blast
      qed
    qed
    show ?thesis
      apply (rule exI[of _ "rs @ ts"])
      using 1 2 3 4 5 by (intro conjI) assumption+
  qed
qed


lemma tile_cells_covers: "(p, q) \<in> tile_cells t \<longleftrightarrow> covers t p q"
  by (auto simp: tile_cells_def covers_def)

lemma plan_tiles_spec:
  assumes "0 < rw" and "0 < rh" and "0 < mw" and "0 < mh"
  shows "\<exists>ts. plan_tiles rw rh mw mh = Some ts \<and>
     (\<Union>t\<in>set ts. tile_cells t) = {0..<rw} \<times> {0..<rh} \<and>
     (\<forall>i<length ts. \<forall>j<length ts. i \<noteq> j \<longrightarrow> tile_cells (ts ! i) \<inter> tile_cells (ts ! j) = {}) \<and>
     (\<forall>t\<in>set ts. mw dvd tx t \<and> mh dvd ty t \<and> tw t = min mw (rw - tx t) \<and>
        th t = min mh (rh - ty t) \<and> tile_cells t \<noteq> {} \<and> 0 < tw t \<and> 0 < th t) \<and>
     ts \<noteq> []"
proof -
  from col_loop_spec[OF assms(3,4,1), of rh 0 "[]"] obtain ts where
    c1: "col_loop rw rh mw mh 0 [] = Some ([] @ ts)" and
    c2: "distinct ts" and
    c3: "\<forall>t\<in>set ts. 0 \<le> ty t \<and> 0 \<le> tx t \<and> 0 < tw t \<and> 0 < th t \<and> tx t + tw t \<le> rw \<and>
         ty t + th t \<le> rh \<and> tw t = min mw (rw - tx t) \<and> th t = min mh (rh - ty t) \<and>
         mw dvd tx t \<and> mh dvd ty t - 0" and
    c4: "\<forall>p q. 0 \<le> p \<and> p < rw \<and> 0 \<le> q \<and> q < rh \<longrightarrow> (\<exists>t\<in>set ts. covers t p q)" and
    c5: "\<forall>t\<in>set ts. \<forall>u\<in>set ts. \<forall>p q. covers t p q \<and> covers u p q \<longrightarrow> t = u"
    by blast
  have 1: "plan_tiles rw rh mw mh = Some ts"
    using c1 by (simp add: plan_tiles_def)
  have 2: "(\<Union>t\<in>set ts. tile_cells t) = {0..<rw} \<times> {0..<rh}"
  proof (intro set_eqI iffI)
    fix z assume "z \<in> (\<Union>t\<in>set ts. tile_cells t)"
    then obtain t p q where t: "t \<in> set ts" and z: "z = (p, q)" and c: "covers t p q"
      by (cases z) (auto simp: tile_cells_covers)
    from c3 t have "0 \<le> ty t" "0 \<le> tx t" "tx t + tw t \<le> rw" "ty t + th t \<le> rh" by auto
    with c show "z \<in> {0..<rw} \<times> {0..<rh}" unfolding z covers_def by simp
  next
    fix z assume "z \<in> {0..<rw} \<times> {0..<rh}"
    then obtain p q where z: "z = (p, q)" and "0 \<le> p \<and> p < rw \<and> 0 \<le> q \<and> q < rh"
      by (cases z) auto
    with c4 obtain t where "t \<in> set ts" "covers t p q" by blast
    then show "z \<in> (\<Union>t\<in>set ts. tile_cells t)"
      unfolding z by (auto simp: tile_cells_covers)
  qed
  have 3: "\<forall>i<length ts. \<forall>j<length ts. i \<noteq> j \<longrightarrow> tile_cells (ts ! i) \<inter> tile_cells (ts ! j) = {}"
  proof (intro allI impI)
    fix i j assume i: "i < length ts" and j: "j < length ts" and ij: "i \<noteq> j"
    have ne: "ts ! i \<noteq> ts ! j" using c2 i j ij by (simp add: nth_eq_iff_index_eq)
    show "tile_cells (ts ! i) \<inter> tile_cells (ts ! j) = {}"
    proof (rule ccontr)
      assume "tile_cells (ts ! i) \<inter> tile_cells (ts ! j) \<noteq> {}"
      then obtain z where "z \<in> tile_cells (ts ! i)" "z \<in> tile_cells (ts ! j)" by blast
      then have "covers (ts ! i) (fst z) (snd z) \<and> covers (ts ! j) (fst z) (snd z)"
        by (cases z) (simp add: tile_cells_covers)
      moreover have "ts ! i \<in> set ts" "ts ! j \<in> set ts" using i j by simp_all
      ultimately have "ts ! i = ts ! j" using c5 by blast
      with ne show False by simp
    qed
  qed
  have 4: "\<forall>t\<in>set ts. mw dvd tx t \<and> mh dvd ty t \<and> tw t = min mw (rw - tx t) \<and>
        th t = min mh (rh - ty t) \<and> tile_cells t \<noteq> {} \<and> 0 < tw t \<and> 0 < th t"
  proof
    fix t assume "t \<in> set ts"
    with c3 have f: "0 < tw t" "0 < th t" "tw t = min mw (rw - tx t)" "th t = min mh (rh - ty t)"
         "mw dvd tx t" "mh dvd ty t" by auto
    have "covers t (tx t) (ty t)" using f(1,2) by (simp add: covers_def)
    then have "tile_cells t \<noteq> {}" using tile_cells_covers by blast
    with f show "mw dvd tx t \<and> mh dvd ty t \<and> tw t = min mw (rw - tx t) \<and>
        th t = min mh (rh - ty t) \<and> tile_cells t \<noteq> {} \<and> 0 < tw t \<and> 0 < th t" by simp
  qed
  have 5: "ts \<noteq> []"
  proof
    assume "ts = []"
    with 2 have "{0..<rw} \<times> {0..<rh} = {}" by simp
    moreover have "(0, 0) \<in> {0..<rw} \<times> {0..<rh}" using assms(1,2) by simp
    ultimately show False by simp
  qed
  show ?thesis
    apply (rule exI[of _ ts])
    using 1 2 3 4 5 by (intro conjI) assumption+
qed

text \<open>
  Claim C1.  For a region of width \<open>rw > 0\<close> and height \<open>rh > 0\<close> and per-tile maxima
  \<open>mw > 0\<close> and \<open>mh > 0\<close> the planner loops return; the tiles they emit cover exactly the
  pixels of \<open>[0, rw) \<times> [0, rh)\<close>, no two tiles of the list share a pixel, and every tile
  starts at a multiple of \<open>mw\<close> and of \<open>mh\<close>, is \<open>min(mw, rw - x)\<close> wide and
  \<open>min(mh, rh - y)\<close> high, and is not empty.
\<close>

theorem planner_partitions_region:
  assumes "0 < rw" and "0 < rh" and "0 < mw" and "0 < mh"
  shows "\<exists>ts. plan_tiles rw rh mw mh = Some ts \<and>
     (\<Union>t\<in>set ts. tile_cells t) = {0..<rw} \<times> {0..<rh} \<and>
     (\<forall>i<length ts. \<forall>j<length ts. i \<noteq> j \<longrightarrow> tile_cells (ts ! i) \<inter> tile_cells (ts ! j) = {}) \<and>
     (\<forall>t\<in>set ts. mw dvd tx t \<and> mh dvd ty t \<and> tw t = min mw (rw - tx t) \<and>
        th t = min mh (rh - ty t) \<and> tile_cells t \<noteq> {})"
proof -
  from plan_tiles_spec[OF assms] obtain ts where
    "plan_tiles rw rh mw mh = Some ts"
    "(\<Union>t\<in>set ts. tile_cells t) = {0..<rw} \<times> {0..<rh}"
    "\<forall>i<length ts. \<forall>j<length ts. i \<noteq> j \<longrightarrow> tile_cells (ts ! i) \<inter> tile_cells (ts ! j) = {}"
    "\<forall>t\<in>set ts. mw dvd tx t \<and> mh dvd ty t \<and> tw t = min mw (rw - tx t) \<and>
        th t = min mh (rh - ty t) \<and> tile_cells t \<noteq> {} \<and> 0 < tw t \<and> 0 < th t"
    by blast
  then show ?thesis by blast
qed

theorem planner_partitions_region_witness:
  "(0::int) < 5 \<and> (0::int) < 7 \<and> (0::int) < 2 \<and> (0::int) < 3 \<and>
   (\<exists>ts. plan_tiles 5 7 2 3 = Some ts \<and>
     (\<Union>t\<in>set ts. tile_cells t) = {0..<5} \<times> {0..<7} \<and>
     (\<forall>i<length ts. \<forall>j<length ts. i \<noteq> j \<longrightarrow> tile_cells (ts ! i) \<inter> tile_cells (ts ! j) = {}) \<and>
     (\<forall>t\<in>set ts. 2 dvd tx t \<and> 3 dvd ty t \<and> tw t = min 2 (5 - tx t) \<and>
        th t = min 3 (7 - ty t) \<and> tile_cells t \<noteq> {}))"
  using planner_partitions_region [of 5 7 2 3] by simp

section \<open>Bounds on the tiles\<close>

lemma limits_pos:
  assumes "0 < scl"
  shows "fst (limits scl) = \<lfloor>fl (32767 / scl)\<rfloor>"
    and "snd (limits scl) = \<lfloor>fl (472907776 / fl (scl * scl))\<rfloor>"
proof -
  have "0 < 32767 / scl" using assms by simp
  then have "0 < fl (32767 / scl)" by (rule fl_pos)
  then show "fst (limits scl) = \<lfloor>fl (32767 / scl)\<rfloor>" by (simp add: limits_def Math_trunc_def)
  have "0 < scl * scl" using assms by simp
  then have "0 < fl (scl * scl)" by (rule fl_pos)
  then have "0 < 472907776 / fl (scl * scl)" by simp
  then have "0 < fl (472907776 / fl (scl * scl))" by (rule fl_pos)
  then show "snd (limits scl) = \<lfloor>fl (472907776 / fl (scl * scl))\<rfloor>"
    by (simp add: limits_def Math_trunc_def)
qed

lemma limits_area_lower:
  assumes "0 < scl"
  shows "472907776 * (999 / 1001) / (scl * scl) \<le> fl (472907776 / fl (scl * scl))"
proof -
  define s2 where "s2 = fl (scl * scl)"
  have p: "0 < scl * scl" using assms by simp
  have s2: "0 < s2" "s2 \<le> scl * scl * (1001 / 1000)"
    unfolding s2_def using fl_pos[OF p] fl_rel(2)[OF p] by simp_all
  have A: "0 < 472907776 / s2" using s2(1) by simp
  have "472907776 * (999 / 1001) / (scl * scl) =
      472907776 / (scl * scl * (1001 / 1000)) * (999 / 1000)" by simp
  also have "\<dots> \<le> 472907776 / s2 * (999 / 1000)"
  proof (intro mult_right_mono divide_left_mono)
    show "s2 \<le> scl * scl * (1001 / 1000)" by (rule s2(2))
    show "0 < scl * scl * (1001 / 1000) * s2" using p s2(1) by simp
  qed simp_all
  also have "\<dots> \<le> fl (472907776 / s2)" by (rule fl_rel(1)[OF A])
  finally show ?thesis unfolding s2_def .
qed

lemma tile_max_bounds:
  "fst (tile_max un rw rh vw vh scl) \<le> 4095"
  "snd (tile_max un rw rh vw vh scl) \<le> 16383"
  "fst (tile_max un rw rh vw vh scl) \<le> fst (limits scl)"
  "snd (tile_max un rw rh vw vh scl) \<le> fst (limits scl)"
  by (auto simp: tile_max_def)

lemma tile_max_pos:
  assumes "0 < scl" and "scl \<le> 32767" and "0 < rw" and "0 < rh" and "0 < vw" and "0 < vh"
  shows "0 < fst (tile_max un rw rh vw vh scl)" and "0 < snd (tile_max un rw rh vw vh scl)"
proof -
  have "(1::rat) \<le> 32767 / scl" using assms(1,2) by (simp add: field_simps)
  then have "1 \<le> fl (32767 / scl)" by (rule fl_ge_one)
  then have "1 \<le> \<lfloor>fl (32767 / scl)\<rfloor>" by (simp add: le_floor_iff)
  then have "0 < fst (limits scl)" using limits_pos(1)[OF assms(1)] by simp
  then show "0 < fst (tile_max un rw rh vw vh scl)" and "0 < snd (tile_max un rw rh vw vh scl)"
    using assms(3-6) by (simp_all add: tile_max_def)
qed

lemma area_limit:
  assumes scl: "0 < scl" "scl \<le> 7 / 2"
    and mw: "0 \<le> mw" "mw \<le> 4095" and mh: "0 \<le> mh" "mh \<le> 16383" "mh \<le> fst (limits scl)"
  shows "mw * mh \<le> snd (limits scl)"
proof -
  have s2: "0 < scl * scl" using scl(1) by simp
  have key: "of_int (mw * mh) * (scl * scl) \<le> (472907776 * (999 / 1001) :: rat)"
  proof (cases "scl \<le> 2")
    case True
    have "mw * mh \<le> 4095 * 16383" using mw mh by (intro mult_mono) simp_all
    then have a: "(of_int (mw * mh) :: rat) \<le> 67088385" by linarith
    have b: "scl * scl \<le> 2 * 2" using True scl(1) by (intro mult_mono) simp_all
    have "of_int (mw * mh) * (scl * scl) \<le> 67088385 * (2 * 2)"
      by (rule mult_mono[OF a b]) (use s2 in simp_all)
    then show ?thesis by simp
  next
    case False
    have l: "0 < 32767 / scl" using scl(1) by simp
    have "mh \<le> \<lfloor>fl (32767 / scl)\<rfloor>" using mh(3) limits_pos(1)[OF scl(1)] by simp
    then have "(of_int mh :: rat) \<le> fl (32767 / scl)" by (simp add: le_floor_iff)
    then have a: "(of_int mh :: rat) \<le> 32767 / scl * (1001 / 1000)"
      using fl_rel(2)[OF l] by linarith
    have b: "(of_int mw :: rat) \<le> 4095" using mw(2) by linarith
    have "(of_int mw :: rat) * of_int mh \<le> 4095 * (32767 / scl * (1001 / 1000))"
      using a b mw(1) mh(1) scl(1) by (intro mult_mono) simp_all
    then have "of_int (mw * mh) * (scl * scl) \<le> 4095 * (32767 / scl * (1001 / 1000)) * (scl * scl)"
      using s2 by (intro mult_right_mono) simp_all
    also have "\<dots> = 4095 * 32767 * (1001 / 1000) * scl" using scl(1) by simp
    also have "\<dots> \<le> 4095 * 32767 * (1001 / 1000) * (7 / 2)"
      using scl(2) by (intro mult_left_mono) simp_all
    also have "\<dots> \<le> 472907776 * (999 / 1001)" by simp
    finally show ?thesis .
  qed
  have "(of_int (mw * mh) :: rat) \<le> 472907776 * (999 / 1001) / (scl * scl)"
    using key s2 by (simp add: pos_le_divide_eq)
  also have "\<dots> \<le> fl (472907776 / fl (scl * scl))" by (rule limits_area_lower[OF scl(1)])
  finally have "mw * mh \<le> \<lfloor>fl (472907776 / fl (scl * scl))\<rfloor>" by (simp add: le_floor_iff)
  then show ?thesis using limits_pos(2)[OF scl(1)] by simp
qed


text \<open>
  Claim C2, as stated, fails: at scale 4 the planner emits the tile 4095 by 8191 for a region
  of that size, and its area is above \<open>trunc(472907776 / 16)\<close>.
\<close>

theorem tile_area_counterexample:
  "tile_max True 4095 8191 1280 720 4 = (4095, 8191) \<and>
   plan_tiles 4095 8191 4095 8191 = Some [\<lparr>tx = 0, ty = 0, tw = 4095, th = 8191\<rparr>] \<and>
   snd (limits 4) = 29556736 \<and>
   \<not> (tw \<lparr>tx = 0, ty = 0, tw = 4095, th = 8191\<rparr> * th \<lparr>tx = 0, ty = 0, tw = 4095, th = 8191\<rparr>
        \<le> snd (limits 4))"
  by code_simp

text \<open>
  Claim C2, amended.  For a scale between 0 and 32767 and positive region and viewport
  sizes the planner returns at least one tile; every tile is at most \<open>mw\<close> wide and
  \<open>mh\<close> high, so its area is at most 4095 times 16383; and when the scale is at most 3.5
  the area is at most \<open>trunc(472907776 / scl\<^sup>2)\<close>.
\<close>

theorem tile_bounds:
  assumes "0 < scl" and "scl \<le> 32767" and "0 < rw" and "0 < rh" and "0 < vw" and "0 < vh"
    and "mw = fst (tile_max un rw rh vw vh scl)" and "mh = snd (tile_max un rw rh vw vh scl)"
  shows "\<exists>ts. plan_tiles rw rh mw mh = Some ts \<and> ts \<noteq> [] \<and>
     (\<forall>t\<in>set ts. tw t \<le> mw \<and> th t \<le> mh \<and> tw t * th t \<le> 4095 * 16383 \<and>
        (scl \<le> 7 / 2 \<longrightarrow> tw t * th t \<le> snd (limits scl)))"
proof -
  have mw: "0 < mw" "mw \<le> 4095" and mh: "0 < mh" "mh \<le> 16383" "mh \<le> fst (limits scl)"
    using tile_max_pos[OF assms(1-6), of un] tile_max_bounds[of un rw rh vw vh scl] assms(7,8)
    by simp_all
  from plan_tiles_spec[OF assms(3,4) mw(1) mh(1)] obtain ts where
    p: "plan_tiles rw rh mw mh = Some ts" and ne: "ts \<noteq> []" and
    b: "\<forall>t\<in>set ts. mw dvd tx t \<and> mh dvd ty t \<and> tw t = min mw (rw - tx t) \<and>
        th t = min mh (rh - ty t) \<and> tile_cells t \<noteq> {} \<and> 0 < tw t \<and> 0 < th t"
    by blast
  have "\<forall>t\<in>set ts. tw t \<le> mw \<and> th t \<le> mh \<and> tw t * th t \<le> 4095 * 16383 \<and>
        (scl \<le> 7 / 2 \<longrightarrow> tw t * th t \<le> snd (limits scl))"
  proof
    fix t assume "t \<in> set ts"
    with b have f: "tw t = min mw (rw - tx t)" "th t = min mh (rh - ty t)" "0 < tw t" "0 < th t"
      by auto
    have w: "tw t \<le> mw" and h: "th t \<le> mh" using f(1,2) by simp_all
    have a: "tw t * th t \<le> 4095 * 16383"
      using w h mw(2) mh(2) f(3,4) by (intro mult_mono) simp_all
    have c: "tw t * th t \<le> snd (limits scl)" if "scl \<le> 7 / 2"
      using area_limit[OF assms(1) that, of "tw t" "th t"] w h mw mh f(3,4) by simp
    show "tw t \<le> mw \<and> th t \<le> mh \<and> tw t * th t \<le> 4095 * 16383 \<and>
        (scl \<le> 7 / 2 \<longrightarrow> tw t * th t \<le> snd (limits scl))"
      using w h a c by simp
  qed
  with p ne show ?thesis by blast
qed

theorem tile_bounds_witness:
  "(0::rat) < 3 \<and> (3::rat) \<le> 32767 \<and> (0::int) < 5000 \<and> (0::int) < 30000 \<and>
   (\<exists>ts. plan_tiles 5000 30000 (fst (tile_max True 5000 30000 1280 720 3))
            (snd (tile_max True 5000 30000 1280 720 3)) = Some ts \<and> ts \<noteq> [] \<and>
     (\<forall>t\<in>set ts. tw t \<le> fst (tile_max True 5000 30000 1280 720 3) \<and>
         th t \<le> snd (tile_max True 5000 30000 1280 720 3) \<and> tw t * th t \<le> 4095 * 16383 \<and>
        ((3::rat) \<le> 7 / 2 \<longrightarrow> tw t * th t \<le> snd (limits 3))))"
  using tile_bounds [of 3 5000 30000 1280 720 "fst (tile_max True 5000 30000 1280 720 3)" True
      "snd (tile_max True 5000 30000 1280 720 3)"]
  by simp

section \<open>Restoring the scroll position\<close>

lemma restore_noop:
  "restore_slot st = RestoreNoop \<Longrightarrow> restoreScrollPosition req st = st"
  by (simp add: restoreScrollPosition_def)

lemma restore_slot_after:
  "restore_slot (restoreScrollPosition req st) = RestoreNoop"
  by (cases "restore_slot st") (simp_all add: restoreScrollPosition_def emit_def)

lemma restore_twice:
  "restoreScrollPosition req (restoreScrollPosition req st) = restoreScrollPosition req st"
  by (rule restore_noop) (rule restore_slot_after)

lemma restore_funpow:
  "(restoreScrollPosition req ^^ Suc n) st = restoreScrollPosition req st"
  by (induction n) (simp_all add: restore_twice)

text \<open>
  Claim C5.  Calling \<open>restoreScrollPosition\<close> \<open>N \<ge> 1\<close> times leaves the same state and the
  same sequence of calls as calling it once: the first call runs the restoring function
  that is stored (removing every inserted style sheet and scrolling back to
  \<open>(sx + spx, sy + spy)\<close>) and stores the do-nothing function, so every later call
  changes nothing.
\<close>

theorem restore_idempotent:
  assumes "1 \<le> N"
  shows "(restoreScrollPosition req ^^ N) st = restoreScrollPosition req st \<and>
         restoreScrollPosition req (restoreScrollPosition req st) = restoreScrollPosition req st \<and>
         effects ((restoreScrollPosition req ^^ N) st) = effects (restoreScrollPosition req st) \<and>
         restore_slot ((restoreScrollPosition req ^^ N) st) = RestoreNoop \<and>
         (restore_slot st = RestoreCss \<longrightarrow>
            effects (restoreScrollPosition req st) =
              effects st @ map RemoveCSS (tasks st) @
              [ExecuteScript (ScrollTo (req_sx req + req_spx req) (req_sy req + req_spy req))]) \<and>
         (restore_slot st = RestoreJs \<longrightarrow>
            effects (restoreScrollPosition req st) =
              effects st @
              [ExecuteScript (ScrollTo (req_sx req + req_spx req) (req_sy req + req_spy req))]) \<and>
         (restore_slot st = RestoreNative \<longrightarrow>
            effects (restoreScrollPosition req st) =
              effects st @
              [RemoveCSS CssReset,
               ExecuteScript (ScrollTo (req_sx req + req_spx req) (req_sy req + req_spy req))])"
proof -
  from assms obtain n where "N = Suc n" by (cases N) auto
  then have "(restoreScrollPosition req ^^ N) st = restoreScrollPosition req st"
    using restore_funpow[where n = n and req = req and st = st] by simp
  then show ?thesis
    using restore_twice[of req st] restore_slot_after[of req st]
    by (simp add: restoreScrollPosition_def emit_def)
qed

theorem restore_idempotent_witness:
  "(1::nat) \<le> 3 \<and>
   (restoreScrollPosition (example_request 3000 5000 1) ^^ 3) example_scroll_state =
     restoreScrollPosition (example_request 3000 5000 1) example_scroll_state \<and>
   effects ((restoreScrollPosition (example_request 3000 5000 1) ^^ 3) example_scroll_state) =
     [InsertCSS CssReset, InsertCSS (CssTranslate 1280 0),
      RemoveCSS CssReset, RemoveCSS (CssTranslate 1280 0), ExecuteScript (ScrollTo 0 0)]"
proof -
  have e: "effects (restoreScrollPosition (example_request 3000 5000 1) example_scroll_state) =
     [InsertCSS CssReset, InsertCSS (CssTranslate 1280 0),
      RemoveCSS CssReset, RemoveCSS (CssTranslate 1280 0), ExecuteScript (ScrollTo 0 0)]"
    by (simp add: restoreScrollPosition_def example_scroll_state_def example_request_def emit_def)
  show ?thesis
    using restore_idempotent [of 3 "example_request 3000 5000 1" example_scroll_state] e
    by simp
qed

section \<open>Target coordinates of the compensator\<close>

text \<open>
  Claim C6.  Both strategies compute the target coordinate of a tile with origin
  \<open>(x, y)\<close> and size \<open>(w, h)\<close> on each axis as the tile origin when the direction is
  positive and as \<open>-(pageSize - origin) + size\<close> otherwise.  The CSS strategy moves the
  page by exactly this target whenever it moves it, and both strategies derive the offset of
  a first tile that is already visible from it.
\<close>

theorem scroll_target_formula:
  "css_scroll_target req x y w h =
     (if req_dir_x req > 0 then x else - (req_pw req - x) + w,
      if req_dir_y req > 0 then y else - (req_ph req - y) + h) \<and>
   js_scroll_target req x y w h = css_scroll_target req x y w h \<and>
   (\<not> is_first st \<longrightarrow>
      snd (css_updateScrollPosition req tr x y w h st) =
        applyCssScroll tr (if req_dir_x req > 0 then x else - (req_pw req - x) + w)
          (if req_dir_y req > 0 then y else - (req_ph req - y) + h) st) \<and>
   (is_first st \<and> \<not> no_scroll req (css_scroll_target req x y w h) w h \<longrightarrow>
      snd (css_updateScrollPosition req tr x y w h st) =
        applyCssScroll tr (if req_dir_x req > 0 then x else - (req_pw req - x) + w)
          (if req_dir_y req > 0 then y else - (req_ph req - y) + h)
          (resetScrollPosition (st\<lparr>is_first := False\<rparr>))) \<and>
   (is_first st \<and> no_scroll req (css_scroll_target req x y w h) w h \<longrightarrow>
      fst (css_updateScrollPosition req tr x y w h st) =
        visible_offset req (css_scroll_target req x y w h) w h \<and>
      fst (js_updateScrollPosition req x y w h st) =
        visible_offset req (css_scroll_target req x y w h) w h)"
  by (simp add: css_scroll_target_def js_scroll_target_def css_updateScrollPosition_def
      js_updateScrollPosition_def Let_def)

theorem scroll_target_formula_witness:
  "css_scroll_target example_request_rtl 1720 720 1280 720 = (0, 720) \<and>
   js_scroll_target example_request_rtl 1720 720 1280 720 = (0, 720) \<and>
   css_scroll_target example_request_rtl 440 0 1280 720 = (- 1280, 0) \<and>
   \<not> is_first example_scroll_state \<and>
   snd (css_updateScrollPosition example_request_rtl True 440 0 1280 720 example_scroll_state) =
     applyCssScroll True (- 1280) 0 example_scroll_state"
proof -
  have r: "req_dir_x example_request_rtl = - 1" "req_dir_y example_request_rtl = 1"
    "req_pw example_request_rtl = 3000" "req_ph example_request_rtl = 5000"
    by (simp_all add: example_request_rtl_def)
  have f: "\<not> is_first example_scroll_state" by (simp add: example_scroll_state_def)
  show ?thesis
    using scroll_target_formula [of example_request_rtl 1720 720 1280 720 example_scroll_state True]
      scroll_target_formula [of example_request_rtl 440 0 1280 720 example_scroll_state True] r f
    by simp
qed

section \<open>The mutex\<close>

lemma acquire_free:
  "holder_of tbl k now = None \<Longrightarrow>
   acquire who k lease now tbl = (True, tbl(k \<mapsto> \<lparr>holder = who, expiry = now + lease\<rparr>))"
  by (simp add: acquire_def)

lemma acquire_held:
  "holder_of tbl k now = Some other \<Longrightarrow> acquire who k lease now tbl = (False, tbl)"
  by (simp add: acquire_def)

lemma holder_of_upd:
  "holder_of (tbl(k \<mapsto> \<lparr>holder = who, expiry = e\<rparr>)) k now = (if now < e then Some who else None)"
  by (simp add: holder_of_def)

text \<open>
  Claim C9.  On a key that is free at \<open>t1\<close>, a non-blocking acquire succeeds; a second one
  at a time \<open>t2\<close> before the lease expires fails and changes nothing; one at a time
  \<open>t3\<close> at or after the expiry succeeds although the key was never released.  A key has
  at most one holder: an acquire succeeds exactly when the key has no unexpired holder,
  it never displaces an unexpired holder, and after a success the caller is the holder.
\<close>

theorem mutex_lease:
  assumes "holder_of tbl k t1 = None" and "t1 \<le> t2" and "t2 < t1 + lease" and "t1 + lease \<le> t3"
  shows "fst (acquire a k lease t1 tbl) = True \<and>
         holder_of (snd (acquire a k lease t1 tbl)) k t2 = Some a \<and>
         acquire b k lease2 t2 (snd (acquire a k lease t1 tbl)) =
           (False, snd (acquire a k lease t1 tbl)) \<and>
         holder_of (snd (acquire a k lease t1 tbl)) k t3 = None \<and>
         fst (acquire c k lease3 t3 (snd (acquire a k lease t1 tbl))) = True \<and>
         (0 < lease3 \<longrightarrow>
            holder_of (snd (acquire c k lease3 t3 (snd (acquire a k lease t1 tbl)))) k t3 = Some c) \<and>
         (fst (acquire w k' l now T) \<longleftrightarrow> holder_of T k' now = None) \<and>
         (holder_of T k' now = Some h \<longrightarrow>
            acquire w k' l now T = (False, T) \<and> holder_of (snd (acquire w k' l now T)) k' now = Some h) \<and>
         (holder_of T k' now = None \<and> 0 < l \<longrightarrow>
            holder_of (snd (acquire w k' l now T)) k' now = Some w)"
proof -
  let ?T1 = "tbl(k \<mapsto> \<lparr>holder = a, expiry = t1 + lease\<rparr>)"
  have 1: "acquire a k lease t1 tbl = (True, ?T1)" using assms(1) by (rule acquire_free)
  have 2: "holder_of ?T1 k t2 = Some a" using assms(3) by (simp add: holder_of_upd)
  have 3: "acquire b k lease2 t2 ?T1 = (False, ?T1)" using 2 by (rule acquire_held)
  have 4: "holder_of ?T1 k t3 = None" using assms(4) by (simp add: holder_of_upd)
  have 5: "acquire c k lease3 t3 ?T1 = (True, ?T1(k \<mapsto> \<lparr>holder = c, expiry = t3 + lease3\<rparr>))"
    using 4 by (rule acquire_free)
  have 6: "0 < lease3 \<longrightarrow> holder_of (snd (acquire c k lease3 t3 ?T1)) k t3 = Some c"
    unfolding 5 by (simp add: holder_of_upd)
  have 7: "fst (acquire w k' l now T) \<longleftrightarrow> holder_of T k' now = None"
    by (cases "holder_of T k' now") (simp_all add: acquire_def)
  have 8: "holder_of T k' now = Some h \<longrightarrow>
            acquire w k' l now T = (False, T) \<and> holder_of (snd (acquire w k' l now T)) k' now = Some h"
    by (simp add: acquire_held)
  have 9: "holder_of T k' now = None \<and> 0 < l \<longrightarrow>
            holder_of (snd (acquire w k' l now T)) k' now = Some w"
    by (simp add: acquire_free holder_of_upd)
  show ?thesis unfolding 1 snd_conv fst_conv using 2 3 4 5 6 7 8 9 unfolding 1 snd_conv fst_conv
    by (intro conjI) simp_all
qed

theorem mutex_lease_witness:
  "holder_of no_locks WorkerKey 0 = None \<and> (0::int) \<le> 1000 \<and> (1000::int) < 0 + 900000 \<and>
   (0::int) + 900000 \<le> 900000 \<and>
   fst (acquire 1 WorkerKey 900000 0 no_locks) = True \<and>
   acquire 2 WorkerKey 900000 1000 (snd (acquire 1 WorkerKey 900000 0 no_locks)) =
     (False, snd (acquire 1 WorkerKey 900000 0 no_locks)) \<and>
   fst (acquire 2 WorkerKey 900000 900000 (snd (acquire 1 WorkerKey 900000 0 no_locks))) = True \<and>
   holder_of (snd (acquire 2 WorkerKey 900000 900000 (snd (acquire 1 WorkerKey 900000 0 no_locks))))
     WorkerKey 900000 = Some 2"
proof -
  have f: "holder_of no_locks WorkerKey 0 = None" by (simp add: holder_of_def no_locks_def)
  show ?thesis
    using mutex_lease [of no_locks WorkerKey 0 1000 900000 900000 1 2 900000 2 900000] f
    by simp
qed

section \<open>A request on a locked tab is dropped\<close>

lemma finally_trace_quiet:
  "\<forall>ev\<in>set (trace (finally_block e who tab out [] tbl)).
      \<not> is_capture ev \<and> \<not> is_page_mutation ev \<and> \<not> is_allocation ev \<and> \<not> is_delivery ev"
  by (simp add: finally_block_def Let_def split: prod.split)

lemma finally_outcome: "outcome (finally_block e who tab out evs tbl) = out"
  by (simp add: finally_block_def Let_def split: prod.split)

text \<open>
  Claim C7.  When the key of the tab is held by another request at the time of the first
  lock call, that call returns false and \<open>TakeScreenshot\<close> goes straight to its
  \<open>finally\<close> block: the request is dropped, and none of its calls is a capture, a change
  of the page, an allocation of a composite buffer or a delivery.  While the other
  request's lease lasts it makes no call at all.
\<close>

theorem second_request_dropped:
  assumes "holder_of tbl (BrowserActionKey tab) (t_lock e) = Some other"
  shows "acquire who (BrowserActionKey tab) (1000 * 60 * 5) (t_lock e) tbl = (False, tbl) \<and>
         TakeScreenshot e who req tab tbl = Some (finally_block e who tab Dropped [] tbl) \<and>
         (\<exists>r. TakeScreenshot e who req tab tbl = Some r \<and> outcome r = Dropped \<and>
            (\<forall>ev\<in>set (trace r).
               \<not> is_capture ev \<and> \<not> is_page_mutation ev \<and> \<not> is_allocation ev \<and> \<not> is_delivery ev) \<and>
            (holder_of tbl (BrowserActionKey tab) (t_finally e) \<noteq> None \<longrightarrow> trace r = []))"
proof -
  have a: "acquire who (BrowserActionKey tab) (1000 * 60 * 5) (t_lock e) tbl = (False, tbl)"
    using assms by (rule acquire_held)
  have a': "acquire who (BrowserActionKey tab) 300000 (t_lock e) tbl = (False, tbl)"
    using a by simp
  have t: "TakeScreenshot e who req tab tbl = Some (finally_block e who tab Dropped [] tbl)"
    by (simp add: TakeScreenshot_def a')
  have q: "holder_of tbl (BrowserActionKey tab) (t_finally e) \<noteq> None \<longrightarrow>
      trace (finally_block e who tab Dropped [] tbl) = []"
    by (auto simp: finally_block_def acquire_held)
  show ?thesis
    using a t q finally_trace_quiet[of e who tab Dropped tbl] finally_outcome[of e who tab Dropped "[]" tbl]
    by simp
qed

theorem second_request_dropped_witness:
  "holder_of held_locks (BrowserActionKey 3) (t_lock example_env) = Some 1 \<and>
   acquire 7 (BrowserActionKey 3) (1000 * 60 * 5) (t_lock example_env) held_locks = (False, held_locks) \<and>
   map_option outcome (TakeScreenshot example_env 7 (example_request 5000 20000 1) 3 held_locks)
     = Some Dropped \<and>
   map_option trace (TakeScreenshot example_env 7 (example_request 5000 20000 1) 3 held_locks)
     = Some []"
proof -
  have h: "holder_of held_locks (BrowserActionKey 3) (t_lock example_env) = Some 1"
    by (simp add: holder_of_def held_locks_def example_env_def)
  have g: "holder_of held_locks (BrowserActionKey 3) (t_finally example_env) \<noteq> None"
    by (simp add: holder_of_def held_locks_def example_env_def)
  from second_request_dropped [OF h, of 7 "example_request 5000 20000 1"] g
  show ?thesis using h by auto
qed

section \<open>A composite buffer that is too large\<close>

lemma finally_trace_append:
  "trace (finally_block e who tab out evs tbl) = evs @ trace (finally_block e who tab out [] tbl)"
  by (simp add: finally_block_def Let_def split: prod.split)

lemma prepare_content_too_large:
  assumes "\<not> one_canvas rw rh scl"
    and "n = Math_trunc (fl (of_int rw * scl)) * Math_trunc (fl (of_int rh * scl)) * 4"
    and "MAX_SAFE_INTEGER \<le> n \<or> \<not> ok n"
  shows "prepare_content ok rw rh scl =
     (Inl ImageTooLargeError,
      (if n < MAX_SAFE_INTEGER then [NewUint8Array n] else []) @ [Alarm ErrorImageTooLarge])"
  using assms by (auto simp: prepare_content_def Let_def)

text \<open>
  Claim C8.  When the tab key is free, the drawable surface is not selected, and the byte
  count \<open>totalWidth * totalHeight * 4\<close> is not below \<open>Number.MAX_SAFE_INTEGER\<close> or the
  allocation throws, \<open>TakeScreenshot\<close> returns with the outcome \<open>ImageTooLarge\<close>: it has
  disabled the button, tried the allocation when the count was small enough, and raised the
  alarm \<open>errorImageTooLarge\<close>; what follows comes from the \<open>finally\<close> block.  No call is
  a capture, a change of the page or a delivery (download, link or clipboard).
\<close>

theorem image_too_large_aborts:
  assumes "holder_of tbl (BrowserActionKey tab) (t_lock e) = None"
    and "scl = (if 82 \<le> BROWSER_VERSION_MAJOR e then req_scale req else 1)"
    and "\<not> one_canvas (req_width req) (req_height req) scl"
    and "n = Math_trunc (fl (of_int (req_width req) * scl)) * Math_trunc (fl (of_int (req_height req) * scl)) * 4"
    and "MAX_SAFE_INTEGER \<le> n \<or> \<not> alloc_ok e n"
    and "0 < scl"
  shows "\<exists>r. TakeScreenshot e who req tab tbl = Some r \<and> outcome r = ImageTooLarge \<and>
     Alarm ErrorImageTooLarge \<in> set (trace r) \<and>
     (\<forall>ev\<in>set (trace r). \<not> is_capture ev \<and> \<not> is_delivery ev \<and> \<not> is_page_mutation ev) \<and>
     (\<exists>fin. trace r =
        Disable # (if n < MAX_SAFE_INTEGER then [NewUint8Array n] else []) @
        [Alarm ErrorImageTooLarge] @ fin \<and>
        set fin \<subseteq> {SetTitle NoTitle, SetBadgeText NoText, SetBadgeBackgroundColor NoColor, Enable})"
proof -
  define key where "key = BrowserActionKey tab"
  define tbl1 where "tbl1 = tbl(key \<mapsto> \<lparr>holder = who, expiry = t_lock e + 300000\<rparr>)"
  define evs where "evs = (if n < MAX_SAFE_INTEGER then [NewUint8Array n] else []) @ [Alarm ErrorImageTooLarge]"
  define r where "r = finally_block e who tab ImageTooLarge (Disable # evs) tbl1"
  define fin where "fin = trace (finally_block e who tab ImageTooLarge [] tbl1)"
  have a: "acquire who (BrowserActionKey tab) 300000 (t_lock e) tbl = (True, tbl1)"
    unfolding tbl1_def key_def using assms(1) by (rule acquire_free)
  have p: "prepare_content (alloc_ok e) (req_width req) (req_height req) scl = (Inl ImageTooLargeError, evs)"
    unfolding evs_def by (rule prepare_content_too_large[where ok = "alloc_ok e", OF assms(3,4,5)])
  have p': "prepare_content (alloc_ok e) (req_width req) (req_height req)
       (if 82 \<le> BROWSER_VERSION_MAJOR e then req_scale req else 1) = (Inl ImageTooLargeError, evs)"
    using p unfolding assms(2) .
  have t: "TakeScreenshot e who req tab tbl = Some r"
    unfolding TakeScreenshot_def r_def by (simp add: a Let_def p' del: One_nat_def)
  have o: "outcome r = ImageTooLarge" unfolding r_def by (rule finally_outcome)
  have tr: "trace r = Disable # evs @ fin"
    unfolding r_def fin_def by (subst finally_trace_append) simp
  have q: "\<forall>ev\<in>set fin. \<not> is_capture ev \<and> \<not> is_page_mutation ev \<and> \<not> is_allocation ev \<and> \<not> is_delivery ev"
    unfolding fin_def by (rule finally_trace_quiet)
  have f: "set fin \<subseteq> {SetTitle NoTitle, SetBadgeText NoText, SetBadgeBackgroundColor NoColor, Enable}"
    unfolding fin_def by (auto simp: finally_block_def Let_def split: prod.splits if_splits)
  have 1: "Alarm ErrorImageTooLarge \<in> set (trace r)" unfolding tr evs_def by simp
  have 2: "\<forall>ev\<in>set (trace r). \<not> is_capture ev \<and> \<not> is_delivery ev \<and> \<not> is_page_mutation ev"
    unfolding tr evs_def using q by auto
  have 3: "trace r = Disable # (if n < MAX_SAFE_INTEGER then [NewUint8Array n] else []) @
        [Alarm ErrorImageTooLarge] @ fin"
    unfolding tr evs_def by simp
  show ?thesis
    apply (rule exI[of _ r])
    apply (intro conjI t o 1 2)
    apply (rule exI[of _ fin])
    apply (intro conjI 3 f)
    done
qed

theorem image_too_large_aborts_witness:
  "holder_of no_locks (BrowserActionKey 3) (t_lock example_env) = None \<and> (0::rat) < 1 \<and>
   \<not> one_canvas 50000 50000 1 \<and>
   \<not> alloc_ok example_env (Math_trunc (fl (of_int 50000 * 1)) * Math_trunc (fl (of_int 50000 * 1)) * 4) \<and>
   map_option outcome (TakeScreenshot example_env 7 (example_request 50000 50000 1) 3 no_locks)
     = Some ImageTooLarge \<and>
   map_option trace (TakeScreenshot example_env 7 (example_request 50000 50000 1) 3 no_locks)
     = Some [Disable, NewUint8Array 10000000000, Alarm ErrorImageTooLarge] \<and>
   \<not> one_canvas 47453133 47453133 1 \<and>
   MAX_SAFE_INTEGER \<le> Math_trunc (fl (of_int 47453133 * 1)) * Math_trunc (fl (of_int 47453133 * 1)) * 4 \<and>
   map_option trace (TakeScreenshot example_env 7 (example_request 47453133 47453133 1) 3 no_locks)
     = Some [Disable, Alarm ErrorImageTooLarge]"
proof -
  have h: "holder_of no_locks (BrowserActionKey 3) (t_lock example_env) = None"
    by (simp add: holder_of_def no_locks_def)
  have s: "(1::rat) = (if 82 \<le> BROWSER_VERSION_MAJOR example_env
                      then req_scale (example_request 50000 50000 1) else 1)"
    "(1::rat) = (if 82 \<le> BROWSER_VERSION_MAJOR example_env
                      then req_scale (example_request 47453133 47453133 1) else 1)"
    by (simp_all add: example_request_def)
  have c: "\<not> one_canvas (req_width (example_request 50000 50000 1))
             (req_height (example_request 50000 50000 1)) 1"
    "\<not> one_canvas (req_width (example_request 47453133 47453133 1))
             (req_height (example_request 47453133 47453133 1)) 1"
    by code_simp+
  have c': "\<not> one_canvas 50000 50000 1" "\<not> one_canvas 47453133 47453133 1" by code_simp+
  have n: "(10000000000::int) = Math_trunc (fl (of_int (req_width (example_request 50000 50000 1)) * 1)) *
         Math_trunc (fl (of_int (req_height (example_request 50000 50000 1)) * 1)) * 4"
    "(9007199326062756::int) = Math_trunc (fl (of_int (req_width (example_request 47453133 47453133 1)) * 1)) *
         Math_trunc (fl (of_int (req_height (example_request 47453133 47453133 1)) * 1)) * 4"
    by code_simp+
  have f: "MAX_SAFE_INTEGER \<le> 10000000000 \<or> \<not> alloc_ok example_env 10000000000"
    "MAX_SAFE_INTEGER \<le> 9007199326062756 \<or> \<not> alloc_ok example_env 9007199326062756"
    by code_simp+
  have v: "\<not> alloc_ok example_env (Math_trunc (fl (of_int 50000 * 1)) * Math_trunc (fl (of_int 50000 * 1)) * 4)"
    "MAX_SAFE_INTEGER \<le> Math_trunc (fl (of_int 47453133 * 1)) * Math_trunc (fl (of_int 47453133 * 1)) * 4"
    by code_simp+
  have t: "map_option trace (TakeScreenshot example_env 7 (example_request 50000 50000 1) 3 no_locks)
     = Some [Disable, NewUint8Array 10000000000, Alarm ErrorImageTooLarge]"
    "map_option trace (TakeScreenshot example_env 7 (example_request 47453133 47453133 1) 3 no_locks)
     = Some [Disable, Alarm ErrorImageTooLarge]"
    by code_simp+
  have s0: "(0::rat) < 1" by simp
  from image_too_large_aborts [OF h s(1) c(1) n(1) f(1) s0, of 7]
  have o: "map_option outcome (TakeScreenshot example_env 7 (example_request 50000 50000 1) 3 no_locks)
     = Some ImageTooLarge" by auto
  show ?thesis by (intro conjI h s0 c' v o t)
qed

section \<open>Choice of the composite buffer\<close>




text \<open>
  The limits are those of the rounded quotients.  At the scale 0.8 (the double nearest to
  \<open>4 / 5\<close>) the area limit is 738918399, one less than \<open>472907776 / 0.64\<close>, so a
  region 32800 by 22528 takes the byte buffer; and at the scale 0.7 a region 90 by 10 has a
  composite of 62 by 7 pixels.
\<close>

lemma rounded_limits_example:
  "limits (fl (4 / 5)) = (40958, 738918399) \<and>
   32800 * 22528 = (738918400 :: int) \<and>
   \<not> one_canvas 32800 22528 (fl (4 / 5)) \<and>
   Math_trunc (fl (of_int 90 * fl (7 / 10))) = 62 \<and>
   Math_trunc (fl (of_int 10 * fl (7 / 10))) = 7"
  by code_simp


subsection \<open>The calls of a run on the drawable surface\<close>



















lemma limits_one: "limits 1 = (32767, 472907776)"
  by code_simp

lemma whole_sizes: "Math_trunc (fl 5000) = 5000" "Math_trunc (fl 20000) = 20000"
  by code_simp+

text \<open>
  Claim C4, as stated, fails: for the region 5000 by 20000 at scale 1 the longer edge is
  below 32767 and the area below 472907776, so the drawable surface is selected and no
  byte buffer is allocated.
\<close>

theorem raw_buffer_counterexample:
  "one_canvas 5000 20000 1 \<and>
   prepare_content (alloc_ok example_env) 5000 20000 1 =
     (Inr (Canvas2D 5000 20000), [CreateCanvas 5000 20000]) \<and>
   map_option outcome (TakeScreenshot example_env 7 (example_request 5000 20000 1) 3 no_locks)
     = Some Delivered \<and>
   map_option (filter is_allocation \<circ> trace)
       (TakeScreenshot example_env 7 (example_request 5000 20000 1) 3 no_locks)
     = Some [CreateCanvas 5000 20000]"
  by code_simp

text \<open>
  Claim C4, amended.  For the region 5000 by 20000 at scale 1 with native capture the
  per-tile maxima are 4095 and 16383, the planner emits four tiles that cover the region,
  none wider than 4095 or higher than 16383, and the drawable surface of 5000 by 20000
  pixels is selected.
\<close>

theorem region_5000_20000:
  "tile_max True 5000 20000 vw vh 1 = (4095, 16383) \<and>
   plan_tiles 5000 20000 4095 16383 =
     Some [\<lparr>tx = 0, ty = 0, tw = 4095, th = 16383\<rparr>, \<lparr>tx = 4095, ty = 0, tw = 905, th = 16383\<rparr>,
           \<lparr>tx = 0, ty = 16383, tw = 4095, th = 3617\<rparr>, \<lparr>tx = 4095, ty = 16383, tw = 905, th = 3617\<rparr>] \<and>
   (\<exists>ts. plan_tiles 5000 20000 4095 16383 = Some ts \<and>
      (\<Union>t\<in>set ts. tile_cells t) = {0..<5000} \<times> {0..<20000} \<and>
      list_all (\<lambda>t. tw t \<le> 4095 \<and> th t \<le> 16383) ts) \<and>
   one_canvas 5000 20000 1 \<and>
   prepare_content ok 5000 20000 1 = (Inr (Canvas2D 5000 20000), [CreateCanvas 5000 20000])"
proof -
  have 1: "tile_max True 5000 20000 vw vh 1 = (4095, 16383)"
    by (simp add: tile_max_def limits_one)
  have 2: "plan_tiles 5000 20000 4095 16383 =
     Some [\<lparr>tx = 0, ty = 0, tw = 4095, th = 16383\<rparr>, \<lparr>tx = 4095, ty = 0, tw = 905, th = 16383\<rparr>,
           \<lparr>tx = 0, ty = 16383, tw = 4095, th = 3617\<rparr>, \<lparr>tx = 4095, ty = 16383, tw = 905, th = 3617\<rparr>]"
    by code_simp
  from plan_tiles_spec[of 5000 20000 4095 16383] obtain ts where
    p: "plan_tiles 5000 20000 4095 16383 = Some ts" and
    u: "(\<Union>t\<in>set ts. tile_cells t) = {0..<5000} \<times> {0..<20000}"
    by auto
  have 3: "list_all (\<lambda>t. tw t \<le> 4095 \<and> th t \<le> 16383) ts"
    using p 2 by auto
  have 4: "one_canvas 5000 20000 1" by code_simp
  have 5: "prepare_content ok 5000 20000 1 = (Inr (Canvas2D 5000 20000), [CreateCanvas 5000 20000])"
    using 4 by (simp add: prepare_content_def whole_sizes)
  from 1 2 p u 3 4 5 show ?thesis by blast
qed

theorem region_5000_20000_witness:
  "map_option (filter is_capture \<circ> trace)
       (TakeScreenshot example_env 7 (example_request 5000 20000 1) 3 no_locks)
     = Some [CaptureTabRect 0 0 4095 16383 1, CaptureTabRect 4095 0 905 16383 1,
             CaptureTabRect 0 16383 4095 3617 1, CaptureTabRect 4095 16383 905 3617 1] \<and>
   tile_max True 5000 20000 1280 720 1 = (4095, 16383) \<and>
   (\<exists>ts. plan_tiles 5000 20000 4095 16383 = Some ts \<and>
      (\<Union>t\<in>set ts. tile_cells t) = {0..<5000} \<times> {0..<20000} \<and>
      list_all (\<lambda>t. tw t \<le> 4095 \<and> th t \<le> 16383) ts) \<and>
   prepare_content (alloc_ok example_env) 5000 20000 1 =
     (Inr (Canvas2D 5000 20000), [CreateCanvas 5000 20000])"
proof -
  have "map_option (filter is_capture \<circ> trace)
       (TakeScreenshot example_env 7 (example_request 5000 20000 1) 3 no_locks)
     = Some [CaptureTabRect 0 0 4095 16383 1, CaptureTabRect 4095 0 905 16383 1,
             CaptureTabRect 0 16383 4095 3617 1, CaptureTabRect 4095 16383 905 3617 1]"
    by code_simp
  then show ?thesis
    using region_5000_20000 [of 1280 720 "alloc_ok example_env"] by blast
qed

section \<open>The two ways of copying a full-width tile\<close>

lemma Math_trunc_of_int: "Math_trunc (of_int k) = k"
  by (simp add: Math_trunc_def)

lemma length_canvas_pixel: "length (canvas_pixel c row col) = 4"
  by (cases "pixel c col row") (simp add: canvas_pixel_def rgba_bytes_def)

lemma length_concat_const:
  "(\<And>x. x \<in> set xs \<Longrightarrow> length (f x) = n) \<Longrightarrow> length (concat (map f xs)) = n * length xs"
  by (induction xs) simp_all

lemma length_row_bytes: "0 \<le> W \<Longrightarrow> length (row_bytes c W row) = nat (4 * W)"
  unfolding row_bytes_def
  by (subst length_concat_const[where n = 4]) (simp_all add: length_canvas_pixel nat_mult_distrib)

lemma length_rows_block:
  assumes "0 \<le> W"
  shows "i \<le> j + 1 \<Longrightarrow> int (length (concat (map (row_bytes c W) [i .. j]))) = 4 * W * (j - i + 1)"
proof -
  assume ij: "i \<le> j + 1"
  have "length (concat (map (row_bytes c W) [i .. j])) = nat (4 * W) * length [i .. j]"
    by (rule length_concat_const) (simp add: length_row_bytes assms)
  then show ?thesis using assms ij by simp
qed

lemma getImageData_trunc:
  assumes "Math_trunc sw = W" and "Math_trunc sh = H" and "0 < W" and "0 < H"
    and "Math_trunc sx = 0" and "Math_trunc sy = r"
  shows "getImageData c sx sy sw sh = Inr (concat (map (row_bytes c W) [r .. r + H - 1]))"
  using assms by (simp add: getImageData_def row_bytes_def[abs_def] Let_def)

lemma getImageData_row:
  "0 < W \<Longrightarrow> getImageData c 0 (of_int i) (of_int W) 1 = Inr (row_bytes c W i)"
  using getImageData_trunc[of "of_int W" W 1 1 0 "of_int i" i c]
  by (simp add: Math_trunc_of_int Math_trunc_def)

lemma getImageData_block:
  "0 < W \<Longrightarrow> 0 < H \<Longrightarrow>
   getImageData c 0 0 (of_int W) (of_int H) = Inr (concat (map (row_bytes c W) [0 .. H - 1]))"
  using getImageData_trunc[of "of_int W" W "of_int H" H 0 0 0 c]
  by (simp add: Math_trunc_of_int Math_trunc_def)

lemma typed_array_set_of_int:
  "typed_array_set c d (of_int k) =
     (if k < 0 \<or> int (length c) < k + int (length d) then Inl RangeError
      else Inr (take (nat k) c @ d @ drop (nat k + length d) c))"
  by (simp add: typed_array_set_def Math_trunc_of_int Let_def)

lemma typed_array_set_fits:
  assumes "Math_trunc off = k" and "0 \<le> k" and "k + int (length d) \<le> int (length c)"
  shows "typed_array_set c d off = Inr (take (nat k) c @ d @ drop (nat k + length d) c)"
  using assms by (simp add: typed_array_set_def Let_def)

lemma typed_array_set_keeps:
  assumes "0 \<le> k" and "k + int (length d) \<le> int (length c)"
    and "int p < k \<or> k + int (length d) \<le> int p"
  shows "length (take (nat k) c @ d @ drop (nat k + length d) c) = length c"
    and "(take (nat k) c @ d @ drop (nat k + length d) c) ! p = c ! p"
proof -
  have lk: "length (take (nat k) c) = nat k" using assms(1,2) by simp
  show "length (take (nat k) c @ d @ drop (nat k + length d) c) = length c"
    using assms(1,2) by simp
  show "(take (nat k) c @ d @ drop (nat k + length d) c) ! p = c ! p"
  proof (cases "int p < k")
    case True
    then have "p < nat k" using assms(1) by simp
    then show ?thesis using lk by (simp add: nth_append)
  next
    case False
    with assms(3) have ge: "k + int (length d) \<le> int p" by simp
    then have pn: "nat k + length d \<le> p" using assms(1) by simp
    then obtain m where m: "p = length (take (nat k) c @ d) + m"
      using lk by (metis le_Suc_ex length_append)
    have "((take (nat k) c @ d) @ drop (nat k + length d) c) ! (length (take (nat k) c @ d) + m) =
          drop (nat k + length d) c ! m"
      by (rule nth_append_length_plus)
    also have "\<dots> = c ! (nat k + length d + m)" using assms(1,2) by simp
    finally show ?thesis using m lk by simp
  qed
qed

subsection \<open>Sizes and offsets that are whole numbers\<close>

text \<open>
  When \<open>rw * scl\<close> and \<open>h * scl\<close> are whole numbers \<open>W\<close> and \<open>H\<close>, exactly and not only
  after rounding, and the offsets stay below \<open>2\<^sup>5\<^sup>3\<close>, no operation rounds, and both
  branches write the rows of the tile \<open>4 * W\<close> bytes apart.
\<close>

lemma scaled_offset:
  assumes Wd: "of_int rw * scl = (of_int W :: rat)" and k0: "0 \<le> k * W" and kb: "k * W * 4 < 2 ^ 53"
  shows "fl (fl (fl (of_int (k * rw) * scl) + of_int 0) * 4) = (of_int (k * W * 4) :: rat)"
    and "fl (fl (of_int (k * rw) * scl) * 4) = (of_int (k * W * 4) :: rat)"
proof -
  have "of_int (k * rw) * scl = (of_int k :: rat) * (of_int rw * scl)" by simp
  also have "\<dots> = of_int (k * W)" unfolding Wd by simp
  finally have e: "of_int (k * rw) * scl = (of_int (k * W) :: rat)" .
  have "k * W \<le> k * W * 4" using k0 by linarith
  then have b: "k * W < 2 ^ 53" using kb by linarith
  have k4: "0 \<le> k * W * 4" using k0 by linarith
  have f1: "fl (of_int (k * rw) * scl) = (of_int (k * W) :: rat)"
    unfolding e by (rule fl_of_int[OF k0 b])
  have z: "(of_int (k * W) :: rat) + of_int 0 = of_int (k * W)" by simp
  have f2: "fl (of_int (k * W) + of_int 0) = (of_int (k * W) :: rat)"
    unfolding z by (rule fl_of_int[OF k0 b])
  have m: "(of_int (k * W) :: rat) * 4 = of_int (k * W * 4)" by simp
  have f3: "fl (of_int (k * W) * 4) = (of_int (k * W * 4) :: rat)"
    unfolding m by (rule fl_of_int[OF k4 kb])
  show "fl (fl (fl (of_int (k * rw) * scl) + of_int 0) * 4) = (of_int (k * W * 4) :: rat)"
    unfolding f1 f2 f3 ..
  show "fl (fl (of_int (k * rw) * scl) * 4) = (of_int (k * W * 4) :: rat)"
    unfolding f1 f3 ..
qed

lemma copy_rows_done:
  assumes "fl (of_int h * scl) = (of_int H :: rat)" and "H \<le> i"
  shows "copy_rows cv x y w h rw scl i c = Inr c"
proof -
  have "\<not> (of_int i :: rat) < of_int H" using assms(2) by simp
  then show ?thesis by (subst copy_rows.simps) (simp add: assms(1))
qed

lemma copy_rows_step:
  assumes Wd: "of_int rw * scl = (of_int W :: rat)" and Wf: "fl (of_int rw * scl) = (of_int W :: rat)"
    and Hf: "fl (of_int h * scl) = (of_int H :: rat)"
    and W0: "0 < W" and iH: "i < H"
    and k0: "0 \<le> (y + i) * W" and kb: "(y + i) * W * 4 < 2 ^ 53"
  shows "copy_rows cv 0 y rw h rw scl i c =
     (if (y + i) * W * 4 < 0 \<or> int (length c) < (y + i) * W * 4 + 4 * W then Inl RangeError
      else copy_rows cv 0 y rw h rw scl (i + 1)
             (take (nat ((y + i) * W * 4)) c @ row_bytes cv W i @
              drop (nat ((y + i) * W * 4) + nat (4 * W)) c))"
proof -
  have lt: "(of_int i :: rat) < fl (of_int h * scl)" unfolding Hf using iH by simp
  have g: "getImageData cv 0 (of_int i) (fl (of_int rw * scl)) 1 = Inr (row_bytes cv W i)"
    unfolding Wf by (rule getImageData_row[OF W0])
  have len: "length (row_bytes cv W i) = nat (4 * W)" using W0 by (simp add: length_row_bytes)
  have il: "int (nat (4 * W)) = 4 * W" using W0 by simp
  show ?thesis
    apply (subst copy_rows.simps)
    apply (simp only: lt if_True g sum.case scaled_offset(1)[OF Wd k0 kb] typed_array_set_of_int len il)
    apply (simp split: if_splits)
    done
qed

lemma copy_rows_from:
  assumes Wd: "of_int rw * scl = (of_int W :: rat)" and Wf: "fl (of_int rw * scl) = (of_int W :: rat)"
    and Hf: "fl (of_int h * scl) = (of_int H :: rat)"
    and W0: "0 < W" and y0: "0 \<le> y" and B: "(y + H) * W * 4 < 2 ^ 53"
  shows "0 \<le> i \<Longrightarrow> i < H \<Longrightarrow>
     copy_rows cv 0 y rw h rw scl i c =
       (if 0 \<le> (y + i) * W * 4 \<and> (y + H) * W * 4 \<le> int (length c)
        then Inr (take (nat ((y + i) * W * 4)) c @ concat (map (row_bytes cv W) [i .. H - 1]) @
                  drop (nat ((y + H) * W * 4)) c)
        else Inl RangeError)"
proof (induction "nat (H - i)" arbitrary: i c rule: less_induct)
  case less
  define k where "k = (y + i) * W * 4"
  define kH where "kH = (y + H) * W * 4"
  define d where "d = row_bytes cv W i"
  define c' where "c' = take (nat k) c @ d @ drop (nat k + nat (4 * W)) c"
  have k': "(y + (i + 1)) * W * 4 = k + 4 * W" by (simp add: k_def algebra_simps)
  have "0 \<le> (H - (i + 1)) * (W * 4)" using less.prems W0 by (intro mult_nonneg_nonneg) simp_all
  then have kH: "k + 4 * W \<le> kH" by (simp add: k_def kH_def algebra_simps)
  have q0: "0 \<le> (y + i) * W" using y0 less.prems(1) W0 by (intro mult_nonneg_nonneg) simp_all
  have qb: "(y + i) * W * 4 < 2 ^ 53" using kH B W0 unfolding k_def kH_def by linarith
  have ld: "length d = nat (4 * W)" using W0 by (simp add: d_def length_row_bytes)
  have step: "copy_rows cv 0 y rw h rw scl i c =
     (if k < 0 \<or> int (length c) < k + 4 * W then Inl RangeError
      else copy_rows cv 0 y rw h rw scl (i + 1) c')"
    unfolding k_def c'_def d_def by (rule copy_rows_step[OF Wd Wf Hf W0 less.prems(2) q0 qb])
  show ?case
  proof (cases "k < 0 \<or> int (length c) < k + 4 * W")
    case True
    then have "\<not> (0 \<le> k \<and> kH \<le> int (length c))" using kH by auto
    then show ?thesis using True step unfolding k_def kH_def by simp
  next
    case False
    then have k0: "0 \<le> k" and fit: "k + 4 * W \<le> int (length c)" by simp_all
    have lt: "length (take (nat k) c) = nat k" using k0 fit W0 by simp
    have lc': "length c' = length c"
      using k0 fit W0 by (simp add: c'_def ld)
    define A where "A = take (nat k) c @ d"
    have split: "c' = A @ drop (nat k + nat (4 * W)) c" by (simp add: c'_def A_def)
    have la: "length A = nat (k + 4 * W)"
      unfolding A_def using lt ld k0 W0 by (simp add: nat_add_distrib)
    have nk: "nat k + nat (4 * W) = nat (k + 4 * W)" using k0 W0 by (simp add: nat_add_distrib)
    show ?thesis
    proof (cases "i + 1 < H")
      case False
      with less.prems have iH: "H = i + 1" by simp
      have "copy_rows cv 0 y rw h rw scl (i + 1) c' = Inr c'"
        by (rule copy_rows_done[OF Hf]) (simp add: iH)
      moreover have "kH = k + 4 * W" by (simp add: kH_def k_def iH algebra_simps)
      moreover have "[i .. H - 1] = [i]" by (simp add: iH)
      ultimately show ?thesis
        using step k0 fit unfolding k_def[symmetric] kH_def[symmetric]
        by (simp add: c'_def d_def nk)
    next
      case True
      have "nat (H - (i + 1)) < nat (H - i)" using less.prems by simp
      moreover have "0 \<le> i + 1" using less.prems(1) by simp
      ultimately have ih: "copy_rows cv 0 y rw h rw scl (i + 1) c' =
         (if 0 \<le> k + 4 * W \<and> kH \<le> int (length c)
          then Inr (take (nat (k + 4 * W)) c' @ concat (map (row_bytes cv W) [i + 1 .. H - 1]) @
                    drop (nat kH) c')
          else Inl RangeError)"
        using less.hyps[of "i + 1" c'] True unfolding k' kH_def[symmetric] lc' by simp
      have "take (length A) (A @ drop (nat k + nat (4 * W)) c) = A" by simp
      then have tk: "take (nat (k + 4 * W)) c' = take (nat k) c @ d"
        unfolding split la by (simp add: A_def)
      obtain m where m: "nat kH = nat (k + 4 * W) + m"
        using kH k0 W0 by (metis nat_le_iff_add nat_mono)
      have "drop (length A + m) (A @ drop (nat k + nat (4 * W)) c) =
          drop m (drop (nat k + nat (4 * W)) c)" by simp
      then have "drop (nat kH) c' = drop m (drop (nat k + nat (4 * W)) c)"
        unfolding split m la .
      also have "\<dots> = drop (nat kH) c" unfolding m nk by (simp add: add.commute)
      finally have dk: "drop (nat kH) c' = drop (nat kH) c" .
      have up: "[i .. H - 1] = i # [i + 1 .. H - 1]" using less.prems by (simp add: upto_rec1)
      show ?thesis
        using step k0 fit ih tk dk W0 unfolding k_def[symmetric] kH_def[symmetric] up
        by (simp add: d_def)
    qed
  qed
qed

lemma copy_bulk_closed:
  assumes Wd: "of_int rw * scl = (of_int W :: rat)" and Wf: "fl (of_int rw * scl) = (of_int W :: rat)"
    and Hf: "fl (of_int h * scl) = (of_int H :: rat)"
    and W0: "0 < W" and H0: "0 < H" and y0: "0 \<le> y" and B: "(y + H) * W * 4 < 2 ^ 53"
  shows "copy_bulk cv y rw h rw scl c =
       (if 0 \<le> y * W * 4 \<and> (y + H) * W * 4 \<le> int (length c)
        then Inr (take (nat (y * W * 4)) c @ concat (map (row_bytes cv W) [0 .. H - 1]) @
                  drop (nat ((y + H) * W * 4)) c)
        else Inl RangeError)"
proof -
  define blk where "blk = concat (map (row_bytes cv W) [0 .. H - 1])"
  have g: "getImageData cv 0 0 (fl (of_int rw * scl)) (fl (of_int h * scl)) = Inr blk"
    unfolding Wf Hf blk_def by (rule getImageData_block[OF W0 H0])
  have lb: "int (length blk) = 4 * W * H"
    unfolding blk_def using length_rows_block[of W 0 "H - 1" cv] W0 H0 by simp
  have e: "y * W * 4 + 4 * W * H = (y + H) * W * 4" by (simp add: algebra_simps)
  have q0: "0 \<le> y * W" using y0 W0 by (intro mult_nonneg_nonneg) simp_all
  have "0 \<le> 4 * W * H" using W0 H0 by (intro mult_nonneg_nonneg) simp_all
  then have qb: "y * W * 4 < 2 ^ 53" using B e by linarith
  have n: "nat (y * W * 4) + length blk = nat ((y + H) * W * 4)" if "0 \<le> y * W * 4"
  proof -
    have "int (nat (y * W * 4) + length blk) = (y + H) * W * 4" using that lb e by simp
    then show ?thesis by linarith
  qed
  show ?thesis
    unfolding copy_bulk_def g sum.case scaled_offset(2)[OF Wd q0 qb] typed_array_set_of_int
      blk_def[symmetric]
    using lb e n by auto
qed

text \<open>
  In particular, for a scale that is a whole number the single copy of a full-width tile
  and the row-by-row loop give the same result for every canvas and every buffer: the same
  bytes when the block fits into the buffer and a \<open>RangeError\<close> when it does not.
\<close>

lemma copy_agree_whole_scale:
  assumes s: "0 < s" and rw: "0 < rw" and h: "0 < h" and y: "0 \<le> y"
    and B: "(y + h * s) * (rw * s) * 4 < 2 ^ 53"
  shows "copy_bulk cv y rw h rw (of_int s) content = copy_rows cv 0 y rw h rw (of_int s) 0 content"
proof -
  define W where "W = rw * s"
  define H where "H = h * s"
  have W0: "0 < W" and H0: "0 < H" using s rw h by (simp_all add: W_def H_def)
  have B': "(y + H) * W * 4 < 2 ^ 53" using B by (simp add: W_def H_def)
  have "W * 1 \<le> W * ((y + H) * 4)" using W0 H0 y by (intro mult_left_mono) simp_all
  then have Wb: "W < 2 ^ 53" using B' by (simp add: algebra_simps)
  have "H * 1 \<le> H * (W * 4)" using W0 H0 by (intro mult_left_mono) simp_all
  moreover have "0 \<le> y * (W * 4)" using y W0 by (intro mult_nonneg_nonneg) simp_all
  ultimately have Hb: "H < 2 ^ 53" using B' by (simp add: algebra_simps)
  have Wd: "of_int rw * of_int s = (of_int W :: rat)" by (simp add: W_def)
  have Hd: "of_int h * of_int s = (of_int H :: rat)" by (simp add: H_def)
  have Wf: "fl (of_int rw * of_int s) = (of_int W :: rat)"
    unfolding Wd using W0 Wb by (intro fl_of_int) simp_all
  have Hf: "fl (of_int h * of_int s) = (of_int H :: rat)"
    unfolding Hd using H0 Hb by (intro fl_of_int) simp_all
  show ?thesis
    unfolding copy_bulk_closed[OF Wd Wf Hf W0 H0 y B']
      copy_rows_from[OF Wd Wf Hf W0 y B' order_refl H0]
    by simp
qed

subsection \<open>A scale that is not a whole number\<close>

text \<open>
  At a scale that is not a whole number the two branches differ.  On a small buffer the
  bytes can be computed: for a tile one pixel wide at scale 1.5 the rows of the block are
  one device pixel (4 bytes) long, and the single copy writes them one after the other,
  while the loop writes row \<open>i\<close> at byte \<open>trunc(i * 1.5 * 4) = 6 * i\<close>.
\<close>

lemma copy_small_example:
  "copy_bulk (tile_canvas (solid white) 1 2 (3 / 2)) 0 1 2 1 (3 / 2) (replicate 24 0) =
     Inr [255, 255, 255, 255, 255, 255, 255, 255, 255, 255, 255, 255,
          0, 0, 0, 0, 0, 0, 0, 0, 0, 0, 0, 0] \<and>
   copy_rows (tile_canvas (solid white) 1 2 (3 / 2)) 0 0 1 2 1 (3 / 2) 0 (replicate 24 0) =
     Inr [255, 255, 255, 255, 0, 0, 255, 255, 255, 255, 0, 0,
          255, 255, 255, 255, 0, 0, 0, 0, 0, 0, 0, 0] \<and>
   copy_bulk (tile_canvas (solid white) 1 2 (3 / 2)) 0 1 2 1 (3 / 2) (replicate 24 0) \<noteq>
   copy_rows (tile_canvas (solid white) 1 2 (3 / 2)) 0 0 1 2 1 (3 / 2) 0 (replicate 24 0)"
  by code_simp

text \<open>
  Rounding can hide the fraction.  The double nearest to \<open>12 / 11\<close> is a scale for which
  \<open>11 * scl\<close> is rounded to 12, so a tile 11 pixels wide has rows of 12 device pixels
  (48 bytes) and the single copy of a tile at \<open>y = 32766\<close> starts at byte
  \<open>48 * 32766\<close>.  The loop offset of its row 2 is a multiple of 48 as well, but for
  row 3 the rounded offset is just below \<open>48 * 32769 = 1572912\<close> and is truncated to the
  byte before.
\<close>

lemma rounded_offset_example:
  "fl (12 / 11) = 1228254443828317 / 1125899906842624 \<and>
   fl (of_int 11 * fl (12 / 11)) = 12 \<and>
   Math_trunc (fl (fl (of_int (32766 * 11) * fl (12 / 11)) * 4)) = 48 * 32766 \<and>
   Math_trunc (fl (fl (fl (of_int ((32766 + 2) * 11) * fl (12 / 11)) + of_int 0) * 4)) =
     48 * 32768 \<and>
   Math_trunc (fl (fl (fl (of_int ((32766 + 3) * 11) * fl (12 / 11)) + of_int 0) * 4)) =
     48 * 32769 - 1"
  by code_simp

lemma copy_rows_untouched:
  assumes img: "\<And>j. i \<le> j \<Longrightarrow> of_int j < fl (of_int h * scl) \<Longrightarrow>
          getImageData cv 0 (of_int j) (fl (of_int w * scl)) 1 = Inr (d j)"
    and off: "\<And>j. i \<le> j \<Longrightarrow> of_int j < fl (of_int h * scl) \<Longrightarrow>
          Math_trunc (fl (fl (fl (of_int ((y + j) * rw) * scl) + of_int x) * 4)) = k j"
    and fit: "\<And>j. i \<le> j \<Longrightarrow> of_int j < fl (of_int h * scl) \<Longrightarrow>
          0 \<le> k j \<and> k j + int (length (d j)) \<le> int (length c) \<and>
          (int p < k j \<or> k j + int (length (d j)) \<le> int p)"
  shows "\<exists>b. copy_rows cv x y w h rw scl i c = Inr b \<and> length b = length c \<and> b ! p = c ! p"
  using assms
proof (induction "nat (\<lceil>fl (of_int h * scl)\<rceil> - i)" arbitrary: i c rule: less_induct)
  case less
  show ?case
  proof (cases "of_int i < fl (of_int h * scl)")
    case False
    then show ?thesis by (subst copy_rows.simps) simp
  next
    case True
    define c' where "c' = take (nat (k i)) c @ d i @ drop (nat (k i) + length (d i)) c"
    from less.prems(3)[OF order_refl True]
    have f: "0 \<le> k i" "k i + int (length (d i)) \<le> int (length c)"
      "int p < k i \<or> k i + int (length (d i)) \<le> int p" by simp_all
    have s: "typed_array_set c (d i) (fl (fl (fl (of_int ((y + i) * rw) * scl) + of_int x) * 4)) = Inr c'"
      unfolding c'_def by (rule typed_array_set_fits[OF less.prems(2)[OF order_refl True] f(1,2)])
    have keep: "length c' = length c" "c' ! p = c ! p"
      unfolding c'_def using typed_array_set_keeps[OF f] by simp_all
    have step: "copy_rows cv x y w h rw scl i c = copy_rows cv x y w h rw scl (i + 1) c'"
      by (subst copy_rows.simps) (simp only: True if_True less.prems(1)[OF order_refl True] s sum.case)
    have m: "nat (\<lceil>fl (of_int h * scl)\<rceil> - (i + 1)) < nat (\<lceil>fl (of_int h * scl)\<rceil> - i)"
      using True by (simp add: less_ceiling_iff)
    have "\<exists>b. copy_rows cv x y w h rw scl (i + 1) c' = Inr b \<and> length b = length c' \<and> b ! p = c' ! p"
    proof (rule less.hyps[OF m])
      fix j assume "i + 1 \<le> j"
      then have ij: "i \<le> j" by simp
      assume jh: "of_int j < fl (of_int h * scl)"
      show "getImageData cv 0 (of_int j) (fl (of_int w * scl)) 1 = Inr (d j)"
        by (rule less.prems(1)[OF ij jh])
      show "Math_trunc (fl (fl (fl (of_int ((y + j) * rw) * scl) + of_int x) * 4)) = k j"
        by (rule less.prems(2)[OF ij jh])
      from less.prems(3)[OF ij jh]
      show "0 \<le> k j \<and> k j + int (length (d j)) \<le> int (length c') \<and>
          (int p < k j \<or> k j + int (length (d j)) \<le> int p)"
        unfolding keep(1) .
    qed
    then show ?thesis unfolding step keep by simp
  qed
qed

lemma copy_bulk_fits:
  assumes W: "Math_trunc (fl (of_int w * scl)) = W" and H: "Math_trunc (fl (of_int h * scl)) = H"
    and W0: "0 < W" and H0: "0 < H"
    and k: "Math_trunc (fl (fl (of_int (y * rw) * scl) * 4)) = k" and k0: "0 \<le> k"
    and fit: "k + 4 * W * H \<le> int (length c)"
  shows "copy_bulk cv y w h rw scl c =
     Inr (take (nat k) c @ concat (map (row_bytes cv W) [0 .. H - 1]) @
          drop (nat k + length (concat (map (row_bytes cv W) [0 .. H - 1]))) c)"
proof -
  have z: "Math_trunc 0 = 0" by (simp add: Math_trunc_def)
  have g: "getImageData cv 0 0 (fl (of_int w * scl)) (fl (of_int h * scl)) =
      Inr (concat (map (row_bytes cv W) [0 .. 0 + H - 1]))"
    by (rule getImageData_trunc[OF W H W0 H0 z z])
  have l: "int (length (concat (map (row_bytes cv W) [0 .. H - 1]))) = 4 * W * H"
    using length_rows_block[of W 0 "H - 1" cv] W0 H0 by simp
  show ?thesis
    unfolding copy_bulk_def g sum.case add_0
    by (rule typed_array_set_fits[OF k k0]) (simp only: l fit)
qed

lemma block_second_row:
  assumes "0 < W" and "2 \<le> H"
  shows "concat (map (row_bytes cv W) [0 .. H - 1]) ! nat (4 * W) = canvas_pixel cv 1 0 ! 0"
    and "nat (4 * W) < length (concat (map (row_bytes cv W) [0 .. H - 1]))"
proof -
  have u: "[0 .. H - 1] = 0 # 1 # [2 .. H - 1]" using assms(2) by (simp add: upto_rec1)
  have l: "length (row_bytes cv W r) = nat (4 * W)" for r
    using assms(1) by (simp add: length_row_bytes)
  have v: "[0 .. W - 1] = 0 # [1 .. W - 1]" using assms(1) by (simp add: upto_rec1)
  have h: "row_bytes cv W 1 ! 0 = canvas_pixel cv 1 0 ! 0"
    unfolding row_bytes_def v using length_canvas_pixel[of cv 1 0] by (simp add: nth_append)
  have n: "0 < length (row_bytes cv W 1)" using l[of 1] assms(1) by simp
  have "concat (map (row_bytes cv W) [0 .. H - 1]) ! nat (4 * W) =
      (row_bytes cv W 0 @ row_bytes cv W 1 @ concat (map (row_bytes cv W) [2 .. H - 1])) !
        (length (row_bytes cv W 0) + 0)"
    unfolding u l by simp
  also have "\<dots> = (row_bytes cv W 1 @ concat (map (row_bytes cv W) [2 .. H - 1])) ! 0"
    by (rule nth_append_length_plus)
  also have "\<dots> = row_bytes cv W 1 ! 0" using n by (simp add: nth_append)
  finally show "concat (map (row_bytes cv W) [0 .. H - 1]) ! nat (4 * W) = canvas_pixel cv 1 0 ! 0"
    using h by simp
  show "nat (4 * W) < length (concat (map (row_bytes cv W) [0 .. H - 1]))"
    unfolding u using l[of 0] l[of 1] assms(1) by simp
qed

text \<open>
  Claim C10 fails on the code.  A request for a region 1001 by 30000 at scale 1.5 takes
  the byte buffer (270180000 bytes, rows of 1501 pixels) and its first tile is full-width,
  1001 by 16383.  Its device rows are 6004 bytes long.  All numbers involved are doubles
  and no operation rounds.  The single copy puts the second row at byte 6004; the loop
  would put row \<open>i\<close> at byte \<open>trunc(i * 1001 * 1.5 * 4) = 6006 * i\<close> and never write byte
  6004.  Both return a buffer, and the buffers differ.
\<close>

theorem copy_strategies_diverge:
  "\<not> one_canvas 1001 30000 (3 / 2) \<and>
   fst (prepare_content (alloc_ok example_env) 1001 30000 (3 / 2)) = Inr (Uint8Array 270180000) \<and>
   tile_max True 1001 30000 1280 720 (3 / 2) = (1001, 16383) \<and>
   plan_tiles 1001 30000 1001 16383 =
     Some [\<lparr>tx = 0, ty = 0, tw = 1001, th = 16383\<rparr>, \<lparr>tx = 0, ty = 16383, tw = 1001, th = 13617\<rparr>] \<and>
   \<not> isl (copy_bulk (tile_canvas (solid white) 1001 16383 (3 / 2)) 0 1001 16383 1001 (3 / 2)
            (replicate 270180000 0)) \<and>
   \<not> isl (copy_rows (tile_canvas (solid white) 1001 16383 (3 / 2)) 0 0 1001 16383 1001 (3 / 2) 0
            (replicate 270180000 0)) \<and>
   copy_bulk (tile_canvas (solid white) 1001 16383 (3 / 2)) 0 1001 16383 1001 (3 / 2)
     (replicate 270180000 0) \<noteq>
   copy_rows (tile_canvas (solid white) 1001 16383 (3 / 2)) 0 0 1001 16383 1001 (3 / 2) 0
     (replicate 270180000 0)"
proof -
  define cv where "cv = tile_canvas (solid white) 1001 16383 (3 / 2)"
  define c0 :: "byte list" where "c0 = replicate 270180000 0"
  define blk where "blk = concat (map (row_bytes cv 1501) [0 .. 24574 - 1])"
  have 1: "\<not> one_canvas 1001 30000 (3 / 2)" by code_simp
  have 2: "fst (prepare_content (alloc_ok example_env) 1001 30000 (3 / 2)) = Inr (Uint8Array 270180000)"
    by code_simp
  have 3: "tile_max True 1001 30000 1280 720 (3 / 2) = (1001, 16383)" by code_simp
  have 4: "plan_tiles 1001 30000 1001 16383 =
     Some [\<lparr>tx = 0, ty = 0, tw = 1001, th = 16383\<rparr>, \<lparr>tx = 0, ty = 16383, tw = 1001, th = 13617\<rparr>]"
    by code_simp
  have W: "Math_trunc (fl (of_int 1001 * (3 / 2))) = 1501" by code_simp
  have H: "Math_trunc (fl (of_int 16383 * (3 / 2))) = 24574" by code_simp
  have Hf: "fl (of_int 16383 * (3 / 2)) = 49149 / 2" by code_simp
  have k: "Math_trunc (fl (fl (of_int (0 * 1001) * (3 / 2)) * 4)) = 0" by code_simp
  have l0: "length c0 = 270180000" by (simp add: c0_def)
  have cvd: "cwidth cv = 1501" "cheight cv = 24574" "pixel cv = solid white"
    unfolding cv_def tile_canvas_def W H by simp_all
  \<comment> \<open>the single copy\<close>
  have fitb: "0 + 4 * 1501 * 24574 \<le> int (length c0)" unfolding l0 by simp
  have bulk: "copy_bulk cv 0 1001 16383 1001 (3 / 2) c0 =
      Inr (take (nat 0) c0 @ blk @ drop (nat 0 + length blk) c0)"
    unfolding blk_def by (rule copy_bulk_fits[OF W H _ _ k _ fitb]) simp_all
  have b1: "blk ! nat (4 * 1501) = canvas_pixel cv 1 0 ! 0"
    and b2: "nat (4 * 1501) < length blk"
    unfolding blk_def by (rule block_second_row; simp)+
  have px: "canvas_pixel cv 1 0 ! 0 = 255"
    by (simp add: canvas_pixel_def cvd solid_def white_def rgba_bytes_def)
  have bn: "(take (nat 0) c0 @ blk @ drop (nat 0 + length blk) c0) ! 6004 = 255"
    using b1 b2 px by (simp add: nth_append)
  \<comment> \<open>the loop\<close>
  have rng: "j \<le> 24574" if "of_int j < fl (of_int 16383 * (3 / 2))" for j
  proof -
    have "(of_int (2 * j) :: rat) < of_int 49149" using that unfolding Hf by simp
    then have "2 * j < 49149" by (simp only: of_int_less_iff)
    then show ?thesis by simp
  qed
  have img: "getImageData cv 0 (of_int j) (fl (of_int 1001 * (3 / 2))) 1 = Inr (row_bytes cv 1501 j)"
    for j
  proof -
    have "getImageData cv 0 (of_int j) (fl (of_int 1001 * (3 / 2))) 1 =
        Inr (concat (map (row_bytes cv 1501) [j .. j + 1 - 1]))"
      by (rule getImageData_trunc[OF W]) (simp_all add: Math_trunc_def)
    then show ?thesis by simp
  qed
  have off: "Math_trunc (fl (fl (fl (of_int ((0 + j) * 1001) * (3 / 2)) + of_int 0) * 4)) = 6006 * j"
    if j0: "0 \<le> j" and jh: "of_int j < fl (of_int 16383 * (3 / 2))" for j
  proof -
    have jb: "j \<le> 24574" by (rule rng[OF jh])
    have n0: "0 \<le> 3003 * j" and nb: "3003 * j < 2 ^ 53" using j0 jb by simp_all
    have m0: "0 \<le> 6006 * j" and mb: "6006 * j < 2 ^ 53" using j0 jb by simp_all
    have a: "of_int ((0 + j) * 1001) * (3 / 2) = (of_int (3003 * j) :: rat) / 2" by simp
    have f1: "fl (of_int ((0 + j) * 1001) * (3 / 2)) = (of_int (3003 * j) :: rat) / 2"
      unfolding a by (rule fl_half[OF n0 nb])
    have z: "(of_int (3003 * j) :: rat) / 2 + of_int 0 = of_int (3003 * j) / 2" by simp
    have f2: "fl (of_int (3003 * j) / 2 + of_int 0) = (of_int (3003 * j) :: rat) / 2"
      unfolding z by (rule fl_half[OF n0 nb])
    have q: "(of_int (3003 * j) :: rat) / 2 * 4 = of_int (6006 * j)" by simp
    have f3: "fl (of_int (3003 * j) / 2 * 4) = (of_int (6006 * j) :: rat)"
      unfolding q by (rule fl_of_int[OF m0 mb])
    show ?thesis unfolding f1 f2 f3 by (rule Math_trunc_of_int)
  qed
  have lr: "int (length (row_bytes cv 1501 j)) = 6004" for j
    by (simp add: length_row_bytes)
  have fit: "0 \<le> 6006 * j \<and> 6006 * j + int (length (row_bytes cv 1501 j)) \<le> int (length c0) \<and>
        (int 6004 < 6006 * j \<or> 6006 * j + int (length (row_bytes cv 1501 j)) \<le> int 6004)"
    if "0 \<le> j" and "of_int j < fl (of_int 16383 * (3 / 2))" for j
  proof -
    have "j \<le> 24574" by (rule rng[OF that(2)])
    then show ?thesis using that(1) unfolding lr l0 by auto
  qed
  from copy_rows_untouched[of 0 16383 "3 / 2" cv 1001 "row_bytes cv 1501" 0 1001 0
      "\<lambda>j. 6006 * j" c0 6004, OF img off fit]
  obtain R where rows: "copy_rows cv 0 0 1001 16383 1001 (3 / 2) 0 c0 = Inr R"
    and rn: "R ! 6004 = c0 ! 6004" by blast
  have "c0 ! 6004 = 0" by (simp add: c0_def)
  with rn have r0: "R ! 6004 = 0" by simp
  have ne: "take (nat 0) c0 @ blk @ drop (nat 0 + length blk) c0 \<noteq> R"
  proof
    assume "take (nat 0) c0 @ blk @ drop (nat 0 + length blk) c0 = R"
    with bn r0 show False by simp
  qed
  have 5: "\<not> isl (copy_bulk cv 0 1001 16383 1001 (3 / 2) c0)" unfolding bulk by simp
  have 6: "\<not> isl (copy_rows cv 0 0 1001 16383 1001 (3 / 2) 0 c0)" unfolding rows by simp
  have 7: "copy_bulk cv 0 1001 16383 1001 (3 / 2) c0 \<noteq> copy_rows cv 0 0 1001 16383 1001 (3 / 2) 0 c0"
    unfolding bulk rows using ne by simp
  show ?thesis
    using 1 2 3 4 5 6 7 unfolding cv_def c0_def by (intro conjI)
qed

subsection \<open>A copy that throws\<close>

text \<open>
  A request for a region 1 by 70000 at scale 0.5 takes the byte buffer; the canvas of its
  first tile is \<open>trunc(0.5) = 0\<close> pixels wide, \<open>getImageData\<close> throws, and the request
  fails after the captures instead of delivering an image.
\<close>

lemma failed_copy_example:
  "\<not> one_canvas 1 70000 (1 / 2) \<and>
   copy_bulk (tile_canvas (solid white) 1 16383 (1 / 2)) 0 1 16383 1 (1 / 2) [] =
     Inl IndexSizeError \<and>
   map_option outcome (TakeScreenshot example_env 7 (example_request 1 70000 (1 / 2)) 3 no_locks) =
     Some Failed"
  by code_simp

end
